theory Spec2Isabelle
  imports Complex_Main "HOL-Library.AList"
begin

section \<open>The Drain log-template miner (pkg/pattern/drain/drain.go)\<close>

text \<open>
  The engine keeps a prefix tree of nodes, a bounded LRU of clusters and a counter.
  Go pointers to clusters are modelled by the cluster's key in the LRU: a write through
  a \<^verbatim>\<open>*LogCluster\<close> is a modification of the entry stored under that key.
  Panics are values of \<open>error\<close>; every operation returns \<open>error + result\<close>.
\<close>

subsection \<open>Errors and the float64 similarity\<close>

datatype error =
    LengthMismatch      \<comment> \<open>\<^verbatim>\<open>panic("seq1 seq2 be of same length")\<close>\<close>
  | DepthTooSmall       \<comment> \<open>\<^verbatim>\<open>panic("depth argument must be at least 3")\<close>\<close>
  | NilPointer          \<comment> \<open>dereference of a nil \<^verbatim>\<open>*Node\<close>\<close>
  | IndexOutOfRange     \<comment> \<open>slice index out of range\<close>

text \<open>
  The similarity is \<^verbatim>\<open>float64(simTokens) / float64(len(clusterTokens))\<close>. Both operands
  are small integers, so the quotient is the correctly rounded rational; it is kept as
  the exact rational here. \<^verbatim>\<open>0 / 0\<close> is NaN in Go (not 0 as in HOL), and every
  comparison with NaN is false.
\<close>

datatype float64 = NaN | Fin rat

definition float_div :: "int \<Rightarrow> int \<Rightarrow> float64" where
  "float_div a b = (if b = 0 then NaN else Fin (of_int a / of_int b))"

fun fgt :: "float64 \<Rightarrow> float64 \<Rightarrow> bool" where
  "fgt (Fin a) (Fin b) = (b < a)"
| "fgt _ _ = False"

fun feq :: "float64 \<Rightarrow> float64 \<Rightarrow> bool" where
  "feq (Fin a) (Fin b) = (a = b)"
| "feq _ _ = False"

fun fge :: "float64 \<Rightarrow> float64 \<Rightarrow> bool" where
  "fge (Fin a) (Fin b) = (b \<le> a)"
| "fge _ _ = False"

subsection \<open>Configuration, clusters, the LRU and tree nodes\<close>

record Config =
  maxNodeDepth :: int
  LogClusterDepth :: int
  SimTh :: float64
  MaxChildren :: int
  ExtraDelimiters :: "string list"
  MaxClusters :: nat
  ParamString :: string

definition DefaultConfig :: Config where
  "DefaultConfig = \<lparr> maxNodeDepth = 0, LogClusterDepth = 18, SimTh = Fin (1 / 2),
     MaxChildren = 8, ExtraDelimiters = [], MaxClusters = 300, ParamString = ''<_>'' \<rparr>"

text \<open>
  \<^verbatim>\<open>LogCluster\<close>: the template, the id and the size. The time-bucketed samples and the
  stringer are opaque to the engine and are left out.
\<close>

record LogCluster =
  Tokens :: "string list"
  cluster_id :: nat
  Size :: int

text \<open>
  Modelled from the spec: \<^verbatim>\<open>LogCluster.append\<close> is declared outside drain.go; the spec
  says it "increments size and records the timestamp".
\<close>

definition append_sample :: "LogCluster \<Rightarrow> LogCluster" where
  "append_sample c = c\<lparr>Size := Size c + 1\<rparr>"

text \<open>
  \<^verbatim>\<open>simplelru.LRU\<close>: the entries from the oldest to the newest (the order of
  \<^verbatim>\<open>Keys()\<close>) and the size fixed at construction.
\<close>

record LogClusterCache =
  cache_size :: nat
  items :: "(nat \<times> LogCluster) list"

definition MaxInt :: nat where
  "MaxInt = 9223372036854775807"

definition createLogClusterCache :: "nat \<Rightarrow> LogClusterCache" where
  "createLogClusterCache maxSize =
     \<lparr> cache_size = (if maxSize = 0 then MaxInt else maxSize), items = [] \<rparr>"

definition move_to_front :: "nat \<Rightarrow> LogCluster \<Rightarrow> (nat \<times> LogCluster) list \<Rightarrow> (nat \<times> LogCluster) list" where
  "move_to_front k v xs = filter (\<lambda>e. fst e \<noteq> k) xs @ [(k, v)]"

definition lru_Set :: "LogClusterCache \<Rightarrow> nat \<Rightarrow> LogCluster \<Rightarrow> LogClusterCache" where
  "lru_Set c k v =
     (case map_of (items c) k of
        Some _ \<Rightarrow> c\<lparr>items := move_to_front k v (items c)\<rparr>
      | None \<Rightarrow>
          (let xs = items c @ [(k, v)]
           in c\<lparr>items := (if cache_size c < length xs then tl xs else xs)\<rparr>))"

definition lru_Get :: "LogClusterCache \<Rightarrow> nat \<Rightarrow> LogClusterCache \<times> LogCluster option" where
  "lru_Get c k =
     (case map_of (items c) k of
        None \<Rightarrow> (c, None)
      | Some v \<Rightarrow> (c\<lparr>items := move_to_front k v (items c)\<rparr>, Some v))"

definition lru_Peek :: "LogClusterCache \<Rightarrow> nat \<Rightarrow> LogCluster option" where
  "lru_Peek c k = map_of (items c) k"

definition lru_Remove :: "LogClusterCache \<Rightarrow> nat \<Rightarrow> LogClusterCache" where
  "lru_Remove c k = c\<lparr>items := filter (\<lambda>e. fst e \<noteq> k) (items c)\<rparr>"

definition lru_Keys :: "LogClusterCache \<Rightarrow> nat list" where
  "lru_Keys c = map fst (items c)"

definition Values :: "LogClusterCache \<Rightarrow> LogCluster list" where
  "Values c = List.map_filter (lru_Peek c) (lru_Keys c)"

text \<open>A write through the pointer stored under key \<open>k\<close>; the recency order is untouched.\<close>

definition modify :: "LogClusterCache \<Rightarrow> nat \<Rightarrow> (LogCluster \<Rightarrow> LogCluster) \<Rightarrow> LogClusterCache" where
  "modify c k f = c\<lparr>items := map (\<lambda>e. if fst e = k then (fst e, f (snd e)) else e) (items c)\<rparr>"

definition set_token :: "nat \<Rightarrow> string \<Rightarrow> LogCluster \<Rightarrow> LogCluster" where
  "set_token i t c = c\<lparr>Tokens := (Tokens c)[i := t]\<rparr>"

datatype Node = Node (keyToChildNode: "(string \<times> Node) list") (clusterIDs: "nat list")

definition createNode :: Node where
  "createNode = Node [] []"

record Drain =
  config :: Config
  rootNode :: Node
  idToCluster :: LogClusterCache
  clustersCounter :: nat

text \<open>
  What the engine takes from outside drain.go: \<^verbatim>\<open>tokenization.Preprocess\<close> (the
  normaliser), the tokenizer's \<^verbatim>\<open>Marshal\<close>, and the order in which Go iterates over a
  map. \<open>pickKey\<close> stands for that order: from the keys that match it names the one the
  iteration visits last. Every theorem below holds for every such environment unless it
  says otherwise.
\<close>

record Env =
  Preprocess :: "string \<Rightarrow> string"
  Marshal :: "string \<Rightarrow> string list"
  pickKey :: "string list \<Rightarrow> string"

definition chosen :: "Env \<Rightarrow> string list \<Rightarrow> string" where
  "chosen E ms = (if pickKey E ms \<in> set ms then pickKey E ms else last ms)"

definition New :: "Config \<Rightarrow> error + Drain" where
  "New cfg =
     (if LogClusterDepth cfg < 3 then Inl DepthTooSmall
      else Inr \<lparr> config = cfg\<lparr>maxNodeDepth := LogClusterDepth cfg - 2\<rparr>,
                 rootNode = createNode,
                 idToCluster = createLogClusterCache (MaxClusters cfg),
                 clustersCounter = 0 \<rparr>)"

subsection \<open>Strings: \<^verbatim>\<open>strconv.Itoa\<close>, \<^verbatim>\<open>strings.Split\<close>, \<^verbatim>\<open>strings.Join\<close>, \<^verbatim>\<open>strings.Replace\<close>\<close>

definition digit_char :: "nat \<Rightarrow> char" where
  "digit_char d = ''0123456789'' ! d"

fun Itoa :: "nat \<Rightarrow> string" where
  "Itoa n = (if n < 10 then [digit_char n] else Itoa (n div 10) @ [digit_char (n mod 10)])"

declare Itoa.simps [simp del]

fun Split :: "char \<Rightarrow> string \<Rightarrow> string list" where
  "Split sep [] = [[]]"
| "Split sep (c # cs) =
     (if c = sep then [] # Split sep cs
      else (case Split sep cs of [] \<Rightarrow> [[c]] | w # ws \<Rightarrow> (c # w) # ws))"

fun Join :: "string list \<Rightarrow> string \<Rightarrow> string" where
  "Join [] sep = []"
| "Join [x] sep = x"
| "Join (x # y # ys) sep = x @ sep @ Join (y # ys) sep"

text \<open>
  \<^verbatim>\<open>strings.Replace(s, old, new, -1)\<close> for a non-empty \<open>old\<close>. For the empty \<open>old\<close> Go
  inserts \<open>new\<close> before every UTF-8 sequence and at the end; the model does so before
  every byte, which is the same on ASCII content.
\<close>

function ReplaceAll :: "string \<Rightarrow> string \<Rightarrow> string \<Rightarrow> string" where
  "ReplaceAll s old new =
     (if old = [] then concat (map (\<lambda>c. new @ [c]) s) @ new
      else if s = [] then []
      else if take (length old) s = old then new @ ReplaceAll (drop (length old) s) old new
      else hd s # ReplaceAll (tl s) old new)"
  by pat_completeness auto
termination
  by (relation "measure (\<lambda>(s, old, new). length s)") auto

declare ReplaceAll.simps [simp del]

subsection \<open>Placeholder deduplication and \<^verbatim>\<open>PatternString\<close>\<close>

text \<open>
  The loop of \<^verbatim>\<open>deduplicatePlaceholders\<close> writes into the slice it reads. The model
  returns the array after the loop together with \<open>i\<close>; the Go result is the first \<open>i\<close>
  elements of that array, and the caller's slice keeps its length and sees the array.
\<close>

function dedup_loop :: "string \<Rightarrow> nat \<Rightarrow> nat \<Rightarrow> string list \<Rightarrow> string list \<times> nat" where
  "dedup_loop param k i tokens =
     (if k < length tokens then
        (if tokens ! k \<noteq> param \<or> tokens ! k \<noteq> tokens ! (k - 1) then
           dedup_loop param (k + 1) (i + 1) (if i \<noteq> k then tokens[i := tokens ! k] else tokens)
         else dedup_loop param (k + 1) i tokens)
      else (tokens, i))"
  by pat_completeness auto
termination
  by (relation "measure (\<lambda>(param, k, i, tokens). length tokens - k)") auto

declare dedup_loop.simps [simp del]

definition deduplicatePlaceholders_arr :: "string list \<Rightarrow> string \<Rightarrow> string list \<times> nat" where
  "deduplicatePlaceholders_arr tokens param =
     (if length tokens < 2 then (tokens, length tokens) else dedup_loop param 1 1 tokens)"

definition deduplicatePlaceholders :: "string list \<Rightarrow> string \<Rightarrow> string list" where
  "deduplicatePlaceholders tokens param =
     (case deduplicatePlaceholders_arr tokens param of (arr, i) \<Rightarrow> take i arr)"

definition tokenizePattern :: "string \<Rightarrow> string \<Rightarrow> string list" where
  "tokenizePattern content param = deduplicatePlaceholders (Split CHR '' '' content) param"

text \<open>
  \<^verbatim>\<open>PatternString\<close> hands \<^verbatim>\<open>c.Tokens\<close> itself to the deduplication, so the cluster's
  template is the array after the loop. The result is the string and the cluster as the
  call leaves it.
\<close>

definition PatternString :: "Config \<Rightarrow> LogCluster \<Rightarrow> string \<times> LogCluster" where
  "PatternString cfg c =
     (case deduplicatePlaceholders_arr (Tokens c) (ParamString cfg) of
        (arr, i) \<Rightarrow>
          (let s = Join (take i arr) '' ''
           in (if s = ParamString cfg then [] else s, c\<lparr>Tokens := arr\<rparr>)))"

subsection \<open>Similarity and template merge\<close>

fun seq_loop :: "string \<Rightarrow> (string \<times> string) list \<Rightarrow> int \<Rightarrow> int \<Rightarrow> (int \<times> int) option" where
  "seq_loop param [] simTokens paramCount = Some (simTokens, paramCount)"
| "seq_loop param ((token1, token2) # rest) simTokens paramCount =
     (if 0 < length token1 \<and> hd token1 = CHR 0x00 \<and> token1 \<noteq> token2 then None
      else if token1 = param then seq_loop param rest simTokens (paramCount + 1)
      else if token1 = token2 then seq_loop param rest (simTokens + 1) paramCount
      else seq_loop param rest simTokens paramCount)"

definition getSeqDistance :: "Config \<Rightarrow> string list \<Rightarrow> string list \<Rightarrow> bool \<Rightarrow> error + (float64 \<times> int)" where
  "getSeqDistance cfg clusterTokens tokens includeParams =
     (if length clusterTokens \<noteq> length tokens then Inl LengthMismatch
      else (case seq_loop (ParamString cfg) (zip clusterTokens tokens) 0 0 of
              None \<Rightarrow> Inr (Fin 0, - 1)
            | Some (simTokens, paramCount) \<Rightarrow>
                Inr (float_div (if includeParams then simTokens + paramCount else simTokens)
                       (int (length clusterTokens)), paramCount)))"

definition createTemplate :: "Config \<Rightarrow> string list \<Rightarrow> string list \<Rightarrow> error + string list" where
  "createTemplate cfg tokens matchClusterTokens =
     (if length tokens \<noteq> length matchClusterTokens then Inl LengthMismatch
      else Inr (map (\<lambda>(t, m). if t \<noteq> m then ParamString cfg else m)
                  (zip tokens matchClusterTokens)))"

subsection \<open>Searching the prefix tree\<close>

text \<open>
  The loop of \<^verbatim>\<open>treeSearch\<close>. \<open>rest\<close> are the tokens still to be ranged over, \<open>i\<close> the
  index of the first of them, \<open>tokens\<close> the caller's slice as rewritten so far. The
  result is the node reached (or none) and the slice.
\<close>

fun search_loop ::
  "Env \<Rightarrow> Config \<Rightarrow> int \<Rightarrow> string list \<Rightarrow> nat \<Rightarrow> int \<Rightarrow> Node \<Rightarrow> string list
     \<Rightarrow> Node option \<times> string list" where
  "search_loop E cfg tokenCount [] i curNodeDepth curNode tokens = (Some curNode, tokens)"
| "search_loop E cfg tokenCount (token # rest) i curNodeDepth curNode tokens =
     (if maxNodeDepth cfg \<le> curNodeDepth then (Some curNode, tokens)
      else if curNodeDepth = tokenCount then (Some curNode, tokens)
      else
        (case map_of (keyToChildNode curNode) token of
           Some nxt \<Rightarrow> search_loop E cfg tokenCount rest (i + 1) (curNodeDepth + 1) nxt tokens
         | None \<Rightarrow>
             (let processedKey = Preprocess E token
              in (case (case map_of (keyToChildNode curNode) processedKey of
                          Some n \<Rightarrow> Some n
                        | None \<Rightarrow> map_of (keyToChildNode curNode) (ParamString cfg)) of
                    Some nxt \<Rightarrow>
                      search_loop E cfg tokenCount rest (i + 1) (curNodeDepth + 1) nxt
                        (tokens[i := processedKey])
                  | None \<Rightarrow> (None, tokens)))))"

type_synonym best = "LogClusterCache \<times> float64 \<times> int \<times> LogCluster option"

fun fastMatch_loop :: "Config \<Rightarrow> nat list \<Rightarrow> string list \<Rightarrow> bool \<Rightarrow> best \<Rightarrow> error + best" where
  "fastMatch_loop cfg [] tokens includeParams st = Inr st"
| "fastMatch_loop cfg (clusterID # ids) tokens includeParams (cache, maxSim, maxParamCount, maxCluster) =
     (case lru_Get cache clusterID of
        (cache', None) \<Rightarrow>
          fastMatch_loop cfg ids tokens includeParams (cache', maxSim, maxParamCount, maxCluster)
      | (cache', Some cluster) \<Rightarrow>
          (case getSeqDistance cfg (Tokens cluster) tokens includeParams of
             Inl e \<Rightarrow> Inl e
           | Inr (curSim, paramCount) \<Rightarrow>
               if paramCount < 0 then
                 fastMatch_loop cfg ids tokens includeParams (cache', maxSim, maxParamCount, maxCluster)
               else if fgt curSim maxSim \<or> (feq curSim maxSim \<and> maxParamCount < paramCount) then
                 fastMatch_loop cfg ids tokens includeParams (cache', curSim, paramCount, Some cluster)
               else
                 fastMatch_loop cfg ids tokens includeParams (cache', maxSim, maxParamCount, maxCluster)))"

definition fastMatch ::
  "Config \<Rightarrow> LogClusterCache \<Rightarrow> nat list \<Rightarrow> string list \<Rightarrow> float64 \<Rightarrow> bool
     \<Rightarrow> error + (LogClusterCache \<times> LogCluster option)" where
  "fastMatch cfg cache clusterIDs' tokens simTh includeParams =
     (case fastMatch_loop cfg clusterIDs' tokens includeParams (cache, Fin (- 1), - 1, None) of
        Inl e \<Rightarrow> Inl e
      | Inr (cache', maxSim, maxParamCount, maxCluster) \<Rightarrow>
          Inr (cache', if fge maxSim simTh then maxCluster else None))"

text \<open>\<^verbatim>\<open>treeSearch\<close> returns the rewritten slice, the cache and the cluster found.\<close>

definition treeSearch ::
  "Env \<Rightarrow> Config \<Rightarrow> LogClusterCache \<Rightarrow> Node \<Rightarrow> string list \<Rightarrow> float64 \<Rightarrow> bool
     \<Rightarrow> error + (string list \<times> LogClusterCache \<times> LogCluster option)" where
  "treeSearch E cfg cache rootN tokens simTh includeParams =
     (let tokenCount = length tokens
      in (case map_of (keyToChildNode rootN) (Itoa tokenCount) of
            None \<Rightarrow> Inr (tokens, cache, None)
          | Some curNode \<Rightarrow>
              if tokenCount < 2 then
                (case clusterIDs curNode of
                   [] \<Rightarrow> Inl IndexOutOfRange
                 | first # _ \<Rightarrow>
                     (case lru_Get cache first of (cache', c) \<Rightarrow> Inr (tokens, cache', c)))
              else
                (case search_loop E cfg (int tokenCount) tokens 0 1 curNode tokens of
                   (None, tokens') \<Rightarrow> Inr (tokens', cache, None)
                 | (Some leaf, tokens') \<Rightarrow>
                     (case fastMatch cfg cache (clusterIDs leaf) tokens' simTh includeParams of
                        Inl e \<Rightarrow> Inl e
                      | Inr (cache', c) \<Rightarrow> Inr (tokens', cache', c)))))"

subsection \<open>Inserting into the prefix tree\<close>

fun sweep :: "LogClusterCache \<Rightarrow> nat list \<Rightarrow> LogClusterCache \<times> nat list" where
  "sweep cache [] = (cache, [])"
| "sweep cache (clusterID # ids) =
     (case lru_Get cache clusterID of
        (cache', None) \<Rightarrow> sweep cache' ids
      | (cache', Some _) \<Rightarrow> (case sweep cache' ids of (cache'', keep) \<Rightarrow> (cache'', clusterID # keep)))"

fun subtree_ids :: "Node \<Rightarrow> nat list" where
  "subtree_ids (Node kids ids) = ids @ concat (map (\<lambda>e. subtree_ids (snd e)) kids)"

fun replace_ids :: "LogClusterCache \<Rightarrow> nat list \<Rightarrow> nat \<Rightarrow> string \<Rightarrow> error + LogClusterCache" where
  "replace_ids cache [] i replacement = Inr cache"
| "replace_ids cache (cid # ids) i replacement =
     (case lru_Get cache cid of
        (cache', None) \<Rightarrow> replace_ids cache' ids i replacement
      | (cache', Some cluster) \<Rightarrow>
          if i < length (Tokens cluster) then
            replace_ids (modify cache' cid (set_token i replacement)) ids i replacement
          else Inl IndexOutOfRange)"

text \<open>
  \<^verbatim>\<open>replaceAllTokens\<close> visits the ids of the node and then those of its children, which
  is the order of \<open>subtree_ids\<close> (the children in the order of the association list).
\<close>

definition replaceAllTokens :: "LogClusterCache \<Rightarrow> Node \<Rightarrow> nat \<Rightarrow> string \<Rightarrow> error + LogClusterCache" where
  "replaceAllTokens cache node i replacement = replace_ids cache (subtree_ids node) i replacement"

text \<open>
  One iteration of the loop of \<^verbatim>\<open>addSeqToPrefixTree\<close> below the leaf test: which edge
  the walk takes from \<open>curNode\<close>. The result is the key of that edge, the child it leads
  to, the edges of \<open>curNode\<close> after the iteration and the cache.
\<close>

definition addSeq_step ::
  "Env \<Rightarrow> Config \<Rightarrow> nat \<Rightarrow> string \<Rightarrow> nat \<Rightarrow> (string \<times> Node) list \<Rightarrow> LogClusterCache
     \<Rightarrow> error + (string \<times> Node \<times> (string \<times> Node) list \<times> LogClusterCache)" where
  "addSeq_step E cfg cid token i kids cache =
     (case map_of kids token of
        Some child \<Rightarrow> Inr (token, child, kids, cache)
      | None \<Rightarrow>
          (let processedToken = Preprocess E token;
               ms = filter (\<lambda>key. Preprocess E key = processedToken) (map fst kids);
               matchingKey = (if ms = [] then [] else chosen E ms);
               cache1 = (if ms = [] then cache else modify cache cid (set_token i processedToken))
           in if matchingKey = [] then
                (case map_of kids (ParamString cfg) of
                   Some pnode \<Rightarrow>
                     if int (length kids) < MaxChildren cfg then
                       Inr (token, createNode, AList.update token createNode kids, cache1)
                     else Inr (ParamString cfg, pnode, kids, cache1)
                 | None \<Rightarrow>
                     if int (length kids) + 1 < MaxChildren cfg then
                       Inr (token, createNode, AList.update token createNode kids, cache1)
                     else if int (length kids) + 1 = MaxChildren cfg then
                       Inr (ParamString cfg, createNode,
                            AList.update (ParamString cfg) createNode kids, cache1)
                     else Inl NilPointer)
              else
                (case map_of kids matchingKey of
                   None \<Rightarrow> Inl NilPointer
                 | Some child \<Rightarrow>
                     if matchingKey \<noteq> processedToken then
                       (case replaceAllTokens cache1 child i processedToken of
                          Inl e \<Rightarrow> Inl e
                        | Inr cache2 \<Rightarrow>
                            Inr (processedToken, child,
                                 AList.delete matchingKey (AList.update processedToken child kids),
                                 cache2))
                     else Inr (processedToken, child, kids, cache1))))"

fun addSeq_loop ::
  "Env \<Rightarrow> Config \<Rightarrow> nat \<Rightarrow> int \<Rightarrow> string list \<Rightarrow> nat \<Rightarrow> int \<Rightarrow> Node \<Rightarrow> LogClusterCache
     \<Rightarrow> error + (Node \<times> LogClusterCache)" where
  "addSeq_loop E cfg cid tokenCount [] i currentDepth curNode cache = Inr (curNode, cache)"
| "addSeq_loop E cfg cid tokenCount (token # rest) i currentDepth curNode cache =
     (if maxNodeDepth cfg \<le> currentDepth \<or> tokenCount \<le> currentDepth then
        (case sweep cache (clusterIDs curNode) of
           (cache', newClusterIDs) \<Rightarrow>
             Inr (Node (keyToChildNode curNode) (newClusterIDs @ [cid]), cache'))
      else
        (case addSeq_step E cfg cid token i (keyToChildNode curNode) cache of
           Inl e \<Rightarrow> Inl e
         | Inr (key, child, kids', cache1) \<Rightarrow>
             (case addSeq_loop E cfg cid tokenCount rest (i + 1) (currentDepth + 1) child cache1 of
                Inl e \<Rightarrow> Inl e
              | Inr (child', cache2) \<Rightarrow>
                  Inr (Node (AList.update key child' kids') (clusterIDs curNode), cache2))))"

text \<open>
  \<open>tokens\<close> is \<^verbatim>\<open>cluster.Tokens\<close> at the call: the \<^verbatim>\<open>range\<close> reads each element before
  the iteration rewrites it.
\<close>

definition addSeqToPrefixTree ::
  "Env \<Rightarrow> Config \<Rightarrow> LogClusterCache \<Rightarrow> Node \<Rightarrow> nat \<Rightarrow> string list
     \<Rightarrow> error + (Node \<times> LogClusterCache)" where
  "addSeqToPrefixTree E cfg cache rootN cid tokens =
     (let tokenCount = length tokens;
          tokenCountStr = Itoa tokenCount;
          firstLayerNode = (case map_of (keyToChildNode rootN) tokenCountStr of
                              Some n \<Rightarrow> n | None \<Rightarrow> createNode)
      in if tokenCount = 0 then
           Inr (Node (AList.update tokenCountStr
                        (Node (keyToChildNode firstLayerNode) (clusterIDs firstLayerNode @ [cid]))
                        (keyToChildNode rootN)) (clusterIDs rootN), cache)
         else
           (case addSeq_loop E cfg cid (int tokenCount) tokens 0 1 firstLayerNode cache of
              Inl e \<Rightarrow> Inl e
            | Inr (n', cache') \<Rightarrow>
                Inr (Node (AList.update tokenCountStr n' (keyToChildNode rootN)) (clusterIDs rootN),
                     cache')))"

subsection \<open>The public operations\<close>

text \<open>
  The body shared by \<^verbatim>\<open>train\<close> and \<^verbatim>\<open>TrainPattern\<close>, which are the same statements
  but for the initial size and the call of \<^verbatim>\<open>append\<close>: \<open>size0\<close> is the \<^verbatim>\<open>Size\<close> of a
  new cluster and \<open>touch\<close> what is done to the cluster afterwards. The result is the
  engine and the cluster returned.
\<close>

definition learn ::
  "Env \<Rightarrow> Drain \<Rightarrow> string list \<Rightarrow> int \<Rightarrow> (LogCluster \<Rightarrow> LogCluster) \<Rightarrow> error + (Drain \<times> LogCluster)" where
  "learn E d tokens size0 touch =
     (case treeSearch E (config d) (idToCluster d) (rootNode d) tokens (SimTh (config d)) False of
        Inl e \<Rightarrow> Inl e
      | Inr (tokens', cache1, None) \<Rightarrow>
          (let clusterID = clustersCounter d + 1;
               matchCluster = touch \<lparr> Tokens = tokens', cluster_id = clusterID, Size = size0 \<rparr>;
               cache2 = lru_Set cache1 clusterID matchCluster
           in (case addSeqToPrefixTree E (config d) cache2 (rootNode d) clusterID tokens' of
                 Inl e \<Rightarrow> Inl e
               | Inr (rootN', cache3) \<Rightarrow>
                   Inr (d\<lparr>rootNode := rootN', idToCluster := cache3, clustersCounter := clusterID\<rparr>,
                        (case lru_Peek cache3 clusterID of Some c \<Rightarrow> c | None \<Rightarrow> matchCluster))))
      | Inr (tokens', cache1, Some matchCluster) \<Rightarrow>
          (case createTemplate (config d) tokens' (Tokens matchCluster) of
             Inl e \<Rightarrow> Inl e
           | Inr newTemplateTokens \<Rightarrow>
               (let upd = (\<lambda>c. touch (c\<lparr>Tokens := newTemplateTokens\<rparr>));
                    cache2 = modify cache1 (cluster_id matchCluster) upd
                in Inr (d\<lparr>idToCluster := fst (lru_Get cache2 (cluster_id matchCluster))\<rparr>,
                        upd matchCluster))))"

definition clip :: "Config \<Rightarrow> string \<Rightarrow> string" where
  "clip cfg token = (if 50 < length token then take 50 token @ ParamString cfg else token)"

definition train :: "Env \<Rightarrow> Drain \<Rightarrow> string list \<Rightarrow> error + (Drain \<times> LogCluster)" where
  "train E d tokens = learn E d (map (clip (config d)) tokens) 1 append_sample"

definition TrainTokens :: "Env \<Rightarrow> Drain \<Rightarrow> string list \<Rightarrow> error + (Drain \<times> LogCluster)" where
  "TrainTokens E d tokens = train E d tokens"

definition Train :: "Env \<Rightarrow> Drain \<Rightarrow> string \<Rightarrow> error + (Drain \<times> LogCluster)" where
  "Train E d content = train E d (Marshal E content)"

text \<open>\<^verbatim>\<open>TrainPattern\<close>; the samples folded in by \<^verbatim>\<open>merge\<close> are opaque and left out.\<close>

definition TrainPattern :: "Env \<Rightarrow> Drain \<Rightarrow> string \<Rightarrow> error + (Drain \<times> LogCluster)" where
  "TrainPattern E d content =
     learn E d (tokenizePattern content (ParamString (config d))) 0 (\<lambda>c. c)"

definition getContentAsTokens :: "Config \<Rightarrow> string \<Rightarrow> string list" where
  "getContentAsTokens cfg content =
     Split CHR '' '' (fold (\<lambda>extraDelimiter s. ReplaceAll s extraDelimiter '' '') (ExtraDelimiters cfg) content)"

text \<open>
  \<^verbatim>\<open>MatchTokens\<close> and \<^verbatim>\<open>Match\<close> return the engine, the token slice as the search leaves
  it, and the cluster found.
\<close>

definition MatchTokens ::
  "Env \<Rightarrow> Drain \<Rightarrow> string list \<Rightarrow> error + (Drain \<times> string list \<times> LogCluster option)" where
  "MatchTokens E d contentTokens =
     (case treeSearch E (config d) (idToCluster d) (rootNode d) contentTokens (Fin 1) True of
        Inl e \<Rightarrow> Inl e
      | Inr (tokens', cache', c) \<Rightarrow> Inr (d\<lparr>idToCluster := cache'\<rparr>, tokens', c))"

definition Match ::
  "Env \<Rightarrow> Drain \<Rightarrow> string \<Rightarrow> error + (Drain \<times> string list \<times> LogCluster option)" where
  "Match E d content = MatchTokens E d (getContentAsTokens (config d) content)"

definition Delete :: "Drain \<Rightarrow> nat \<Rightarrow> Drain" where
  "Delete d cid = d\<lparr>idToCluster := lru_Remove (idToCluster d) cid\<rparr>"

text \<open>\<^verbatim>\<open>PatternString\<close> on the cluster stored under \<open>cid\<close>, with its write to the template.\<close>

definition PatternString_of :: "Drain \<Rightarrow> nat \<Rightarrow> Drain" where
  "PatternString_of d cid =
     d\<lparr>idToCluster := modify (idToCluster d) cid (\<lambda>c. snd (PatternString (config d) c))\<rparr>"

datatype operation =
    OpTrain string
  | OpTrainTokens "string list"
  | OpTrainPattern string
  | OpMatch string
  | OpMatchTokens "string list"
  | OpDelete nat
  | OpPatternString nat

fun step :: "Env \<Rightarrow> Drain \<Rightarrow> operation \<Rightarrow> error + Drain" where
  "step E d (OpTrain content) = map_sum (\<lambda>e. e) fst (Train E d content)"
| "step E d (OpTrainTokens tokens) = map_sum (\<lambda>e. e) fst (TrainTokens E d tokens)"
| "step E d (OpTrainPattern content) = map_sum (\<lambda>e. e) fst (TrainPattern E d content)"
| "step E d (OpMatch content) = map_sum (\<lambda>e. e) fst (Match E d content)"
| "step E d (OpMatchTokens tokens) = map_sum (\<lambda>e. e) fst (MatchTokens E d tokens)"
| "step E d (OpDelete cid) = Inr (Delete d cid)"
| "step E d (OpPatternString cid) = Inr (PatternString_of d cid)"

fun run :: "Env \<Rightarrow> Drain \<Rightarrow> operation list \<Rightarrow> error + Drain" where
  "run E d [] = Inr d"
| "run E d (op # ops) = (case step E d op of Inl e \<Rightarrow> Inl e | Inr d' \<Rightarrow> run E d' ops)"

text \<open>An environment for the examples: no normalisation, tokens split on the space.\<close>

definition plain_env :: Env where
  "plain_env = \<lparr> Preprocess = (\<lambda>t. t), Marshal = Split CHR '' '', pickKey = last \<rparr>"

subsection \<open>Specification-level definitions used in the statements\<close>

text \<open>
  The deduplication as the spec words it: keep the first token; drop a later token iff it
  equals the placeholder and equals its predecessor.
\<close>

fun dedup_spec :: "string \<Rightarrow> string list \<Rightarrow> string list" where
  "dedup_spec p [] = []"
| "dedup_spec p [x] = [x]"
| "dedup_spec p (x # y # ys) =
     (if y = p \<and> y = x then dedup_spec p (y # ys) else x # dedup_spec p (y # ys))"

text \<open>
  An adjacent pair of placeholders at positions \<open>k - 1\<close>, \<open>k\<close> of a template that is
  followed, somewhere later, by a token that is not the placeholder.
\<close>

definition pair_then_literal :: "string \<Rightarrow> string list \<Rightarrow> bool" where
  "pair_then_literal p xs \<longleftrightarrow>
     (\<exists>k j. 0 < k \<and> k < j \<and> j < length xs \<and> xs ! (k - 1) = p \<and> xs ! k = p \<and> xs ! j \<noteq> p)"

text \<open>A fresh engine followed by a list of public operations.\<close>

definition run_new :: "Env \<Rightarrow> Config \<Rightarrow> operation list \<Rightarrow> error + Drain" where
  "run_new E cfg ops = (case New cfg of Inl e \<Rightarrow> Inl e | Inr d \<Rightarrow> run E d ops)"

subsection \<open>Projections and sample engines for the examples\<close>

definition template_of :: "error + Drain \<Rightarrow> nat \<Rightarrow> string list option" where
  "template_of r k = (case r of Inl e \<Rightarrow> None | Inr d \<Rightarrow> map_option Tokens (lru_Peek (idToCluster d) k))"

definition recency_of :: "error + Drain \<Rightarrow> nat list option" where
  "recency_of r = (case r of Inl e \<Rightarrow> None | Inr d \<Rightarrow> Some (lru_Keys (idToCluster d)))"

fun edges_at :: "Node \<Rightarrow> string list \<Rightarrow> string list option" where
  "edges_at n [] = Some (map fst (keyToChildNode n))"
| "edges_at n (key # path) =
     (case map_of (keyToChildNode n) key of None \<Rightarrow> None | Some child \<Rightarrow> edges_at child path)"

definition edges_of :: "error + Drain \<Rightarrow> string list \<Rightarrow> string list option" where
  "edges_of r path = (case r of Inl e \<Rightarrow> None | Inr d \<Rightarrow> edges_at (rootNode d) path)"

definition digit_env :: Env where
  "digit_env = \<lparr> Preprocess = (\<lambda>t. if t \<noteq> [] \<and> list_all (\<lambda>c. c \<in> set ''0123456789'') t then ''<NUM>'' else t),
                  Marshal = Split CHR '' '', pickKey = last \<rparr>"

definition engine0 :: Drain where
  "engine0 = \<lparr> config = DefaultConfig\<lparr>maxNodeDepth := 16\<rparr>, rootNode = Node [] [],
       idToCluster = \<lparr>cache_size = 300, items = []\<rparr>, clustersCounter = 0 \<rparr>"

definition engine_bar :: Drain where
  "engine_bar = engine0\<lparr> rootNode := Node [(''1'', Node [] [1])] [],
       idToCluster := \<lparr>cache_size = 300,
          items = [(1, \<lparr>Tokens = [''bar''], cluster_id = 1, Size = 2\<rparr>)]\<rparr>,
       clustersCounter := 1 \<rparr>"

definition engine_ab_cd :: "nat list \<Rightarrow> Drain" where
  "engine_ab_cd order = engine0\<lparr>
       rootNode := Node [(''2'', Node [(''a'', Node [] [1]), (''c'', Node [] [2])] [])] [],
       idToCluster := \<lparr>cache_size = 300,
          items = map (\<lambda>k. (k, \<lparr>Tokens = (if k = 1 then [''a'', ''b''] else [''c'', ''d'']),
                                 cluster_id = k, Size = 2\<rparr>)) order\<rparr>,
       clustersCounter := 2 \<rparr>"

definition engine_num :: Drain where
  "engine_num = engine0\<lparr>
       rootNode := Node [(''3'', Node [(''id'', Node [(''<NUM>'', Node [] [1])] [])] [])] [],
       idToCluster := \<lparr>cache_size = 300,
          items = [(1, \<lparr>Tokens = [''id'', ''<NUM>'', ''ok''], cluster_id = 1, Size = 2\<rparr>)]\<rparr>,
       clustersCounter := 1 \<rparr>"



definition k_lines :: "string list" where
  "k_lines = [''k v1'', ''k v2'', ''k v3'', ''k v4'', ''k v5'', ''k v6'', ''k v7'', ''k v8'', ''k v9'']"

definition wide_lines :: "string list" where
  "wide_lines = [''a b c d e f g h i j k l m n o x y z'', ''a b c d e f g h i j k l m n o u v z'']"

text \<open>
  What the invariants need of the store: for every entry its key, the length of its
  template and its id.
\<close>

definition shape :: "LogClusterCache \<Rightarrow> (nat \<times> nat \<times> nat) set" where
  "shape c = (\<lambda>e. (fst e, length (Tokens (snd e)), cluster_id (snd e))) ` set (items c)"

text \<open>
  The length-bucket invariant: every stored cluster sits under its own id, no id exceeds
  the counter, and an id below the bucket labelled \<open>key\<close> resolves, if at all, to a
  cluster whose number of tokens prints as \<open>key\<close>.
\<close>

definition bucket_inv :: "Drain \<Rightarrow> bool" where
  "bucket_inv d \<longleftrightarrow>
     (\<forall>e \<in> shape (idToCluster d). fst e \<le> clustersCounter d \<and> snd (snd e) = fst e)
   \<and> (\<forall>kb \<in> set (keyToChildNode (rootNode d)). \<forall>k \<in> set (subtree_ids (snd kb)).
         k \<le> clustersCounter d
         \<and> (\<forall>e \<in> shape (idToCluster d). fst e = k \<longrightarrow> Itoa (fst (snd e)) = fst kb))"

definition kids_ids :: "(string \<times> Node) list \<Rightarrow> nat set" where
  "kids_ids kids = (\<Union>e \<in> set kids. set (subtree_ids (snd e)))"

definition buckets_ok :: "Node \<Rightarrow> LogClusterCache \<Rightarrow> bool" where
  "buckets_ok rootN cache \<longleftrightarrow>
     (\<forall>kb \<in> set (keyToChildNode rootN). \<forall>k \<in> set (subtree_ids (snd kb)).
        \<forall>e \<in> shape cache. fst e = k \<longrightarrow> Itoa (fst (snd e)) = fst kb)"

text \<open>
  The fan-out invariant of a subtree: the edge keys of every node are distinct, a node with
  an outgoing edge has at most \<open>MaxChildren\<close> of them, and one with exactly
  \<open>MaxChildren\<close> has the placeholder edge. \<open>kids_ok\<close> is the same for the edges of one
  node.
\<close>

fun fanout_ok :: "Config \<Rightarrow> Node \<Rightarrow> bool" where
  "fanout_ok cfg (Node kids ids) \<longleftrightarrow>
     distinct (map fst kids)
     \<and> (kids \<noteq> [] \<longrightarrow> int (length kids) \<le> MaxChildren cfg
          \<and> (int (length kids) = MaxChildren cfg \<longrightarrow> ParamString cfg \<in> set (map fst kids)))
     \<and> list_all (\<lambda>e. fanout_ok cfg (snd e)) kids"

definition kids_ok :: "Config \<Rightarrow> (string \<times> Node) list \<Rightarrow> bool" where
  "kids_ok cfg kids \<longleftrightarrow>
     distinct (map fst kids)
     \<and> (kids \<noteq> [] \<longrightarrow> int (length kids) \<le> MaxChildren cfg
          \<and> (int (length kids) = MaxChildren cfg \<longrightarrow> ParamString cfg \<in> set (map fst kids)))
     \<and> (\<forall>e \<in> set kids. fanout_ok cfg (snd e))"

definition fanout_inv :: "Env \<Rightarrow> Config \<Rightarrow> Drain \<Rightarrow> bool" where
  "fanout_inv E cfg d \<longleftrightarrow>
     MaxChildren (config d) = MaxChildren cfg \<and> ParamString (config d) = ParamString cfg
     \<and> Preprocess E (ParamString cfg) = ParamString cfg
     \<and> list_all (\<lambda>kb. fanout_ok (config d) (snd kb)) (keyToChildNode (rootNode d))"

definition fan_lines :: "string list" where
  "fan_lines = [''a v1 x'', ''a v2 x'', ''a v3 x'', ''a v4 x'', ''a v5 x'', ''a v6 x'', ''a v7 x'',
                ''a v8 x'', ''a v9 x'']"

definition fan_engine :: Drain where
  "fan_engine = engine0\<lparr>
     rootNode := Node [(''3'', Node [(''a'', Node
        [(''v1'', Node [] [1]), (''v2'', Node [] [2]), (''v3'', Node [] [3]), (''v4'', Node [] [4]),
         (''v5'', Node [] [5]), (''v6'', Node [] [6]), (''v7'', Node [] [7]), (''<_>'', Node [] [8])] [])] [])] [],
     idToCluster := \<lparr>cache_size = 300,
        items = map (\<lambda>k. (k, \<lparr>Tokens = [''a'', if k = 8 then ''<_>'' else ''v'' @ Itoa k, ''x''],
                               cluster_id = k, Size = (if k = 8 then 3 else 2)\<rparr>)) [1, 2, 3, 4, 5, 6, 7, 8]\<rparr>,
     clustersCounter := 8 \<rparr>"





text \<open>A configuration whose placeholder is a token that \<open>digit_env\<close> normalises.\<close>

definition zero_cfg :: Config where
  "zero_cfg = DefaultConfig\<lparr>MaxChildren := 2, ParamString := ''0''\<rparr>"











section \<open>Placeholder deduplication\<close>

lemma dedup_spec_hd: "\<exists>zs. dedup_spec p (x # xs) = x # zs"
  by (induction p "x # xs" arbitrary: x xs rule: dedup_spec.induct) auto

lemma dedup_spec_idem: "dedup_spec p (dedup_spec p xs) = dedup_spec p xs"
proof (induction p xs rule: dedup_spec.induct)
  case (3 p x y ys)
  obtain zs where zs: "dedup_spec p (y # ys) = y # zs"
    using dedup_spec_hd by blast
  show ?case
  proof (cases "y = p \<and> y = x")
    case True
    then have "y = p" "x = p" by auto
    then have "dedup_spec p (x # y # ys) = dedup_spec p (y # ys)" by simp
    with 3(1)[OF True] show ?thesis by simp
  next
    case False
    then have "dedup_spec p (x # y # ys) = x # y # zs" using zs by auto
    moreover have "dedup_spec p (x # y # zs) = x # dedup_spec p (y # zs)" using False by auto
    moreover have "dedup_spec p (y # zs) = y # zs" using 3(2)[OF False] zs by simp
    ultimately show ?thesis by simp
  qed
qed simp_all

lemma dedup_spec_nonempty: "xs \<noteq> [] \<Longrightarrow> dedup_spec p xs \<noteq> []"
  by (cases xs) (use dedup_spec_hd in \<open>auto\<close>, metis list.discI)

lemma dedup_spec_last: "xs \<noteq> [] \<Longrightarrow> last (dedup_spec p xs) = last xs"
  by (induction p xs rule: dedup_spec.induct) (auto simp: dedup_spec_nonempty)

lemma dedup_spec_snoc:
  "dedup_spec p (xs @ [a]) =
     dedup_spec p xs @ (if xs \<noteq> [] \<and> a = p \<and> last xs = a then [] else [a])"
  by (induction p xs rule: dedup_spec.induct) auto

lemma dedup_spec_length: "length (dedup_spec p xs) \<le> length xs"
  by (induction p xs rule: dedup_spec.induct) auto

lemma dedup_loop_inv:
  assumes "1 \<le> k" "k \<le> length xs" "length ys = length xs" "i \<le> k"
    and "take i ys = dedup_spec p (take k xs)"
    and "\<forall>j. i \<le> j \<and> j < length xs \<longrightarrow> ys ! j = xs ! j"
    and "ys ! (k - 1) = xs ! (k - 1)"
  shows "dedup_loop p k i ys =
           (dedup_spec p xs @ drop (length (dedup_spec p xs)) xs, length (dedup_spec p xs))"
  using assms
proof (induction p k i ys rule: dedup_loop.induct)
  case (1 param k i tokens)
  show ?case
  proof (cases "k < length tokens")
    case False
    with 1 have k: "k = length xs" by simp
    with 1 have t: "take i tokens = dedup_spec param xs" by simp
    then have i: "i = length (dedup_spec param xs)"
      using 1(6) 1(5) k by (metis length_take min.absorb2)
    have "drop i tokens = drop i xs"
      using 1(5,8) by (intro nth_equalityI) auto
    then have "tokens = dedup_spec param xs @ drop i xs"
      using t by (metis append_take_drop_id)
    with i False show ?thesis by (simp add: dedup_loop.simps)
  next
    case True
    then have kx: "k < length xs" using 1 by simp
    have rk: "tokens ! k = xs ! k" using 1 kx by simp
    have tk: "take (Suc k) xs = take k xs @ [xs ! k]"
      using kx by (simp add: take_Suc_conv_app_nth)
    have ne: "take k xs \<noteq> []" using 1 kx by auto
    have lst: "last (take k xs) = xs ! (k - 1)"
      using 1(3) kx ne by (simp add: last_conv_nth)
    have il: "i < length tokens" using 1 kx by simp
    show ?thesis
    proof (cases "tokens ! k \<noteq> param \<or> tokens ! k \<noteq> tokens ! (k - 1)")
      case keep: True
      let ?ys = "if i \<noteq> k then tokens[i := tokens ! k] else tokens"
      have a: "take (i + 1) ?ys = dedup_spec param (take (k + 1) xs)"
      proof -
        have "take (Suc i) ?ys = take i ?ys @ [?ys ! i]"
          using il by (simp add: take_Suc_conv_app_nth)
        moreover have "take i ?ys = take i tokens" by simp
        moreover have "?ys ! i = tokens ! k" using il by auto
        ultimately have "take (Suc i) ?ys = dedup_spec param (take k xs) @ [xs ! k]"
          using 1(7) rk by simp
        moreover have "dedup_spec param (take (Suc k) xs) = dedup_spec param (take k xs) @ [xs ! k]"
          using keep rk 1(9) lst ne by (auto simp: tk dedup_spec_snoc)
        ultimately show ?thesis by simp
      qed
      have b: "\<forall>j. i + 1 \<le> j \<and> j < length xs \<longrightarrow> ?ys ! j = xs ! j"
        using 1(8) by auto
      have c: "?ys ! (k + 1 - 1) = xs ! (k + 1 - 1)"
        using rk 1(6) il by (auto simp: nth_list_update)
      have "dedup_loop param (k + 1) (i + 1) ?ys =
            (dedup_spec param xs @ drop (length (dedup_spec param xs)) xs, length (dedup_spec param xs))"
        using 1(1)[OF True keep _ _ _ _ a b c] kx 1(5,6) by simp
      then show ?thesis
        using True keep by (subst dedup_loop.simps) simp
    next
      case drop: False
      have a: "take i tokens = dedup_spec param (take (k + 1) xs)"
        using drop rk 1(7,9) lst ne by (auto simp: tk dedup_spec_snoc)
      have c: "tokens ! (k + 1 - 1) = xs ! (k + 1 - 1)" using rk by simp
      have "dedup_loop param (k + 1) i tokens =
            (dedup_spec param xs @ drop (length (dedup_spec param xs)) xs, length (dedup_spec param xs))"
        using 1(2)[OF True drop _ _ _ _ a 1(8) c] kx 1(5,6) by simp
      then show ?thesis
        using True drop by (subst dedup_loop.simps) simp
    qed
  qed
qed

lemma dedup_arr_eq:
  "deduplicatePlaceholders_arr xs p =
     (dedup_spec p xs @ drop (length (dedup_spec p xs)) xs, length (dedup_spec p xs))"
proof (cases "length xs < 2")
  case True
  then consider "xs = []" | x where "xs = [x]"
    by (cases xs; cases "tl xs") auto
  then show ?thesis
    by cases (auto simp: deduplicatePlaceholders_arr_def)
next
  case False
  then obtain x y zs where xs: "xs = x # y # zs"
    by (cases xs; cases "tl xs") auto
  have "dedup_loop p 1 1 xs =
     (dedup_spec p xs @ drop (length (dedup_spec p xs)) xs, length (dedup_spec p xs))"
    by (rule dedup_loop_inv) (auto simp: xs)
  with False show ?thesis by (simp add: deduplicatePlaceholders_arr_def)
qed

lemma dedup_eq_spec: "deduplicatePlaceholders xs p = dedup_spec p xs"
  by (simp add: deduplicatePlaceholders_def dedup_arr_eq)

lemma dedup_spec_literals:
  "filter (\<lambda>t. t \<noteq> p) (dedup_spec p xs) = filter (\<lambda>t. t \<noteq> p) xs"
  by (induction p xs rule: dedup_spec.induct) auto

lemma dedup_spec_no_pair:
  "0 < m \<Longrightarrow> m < length (dedup_spec p xs) \<Longrightarrow>
     \<not> (dedup_spec p xs ! m = p \<and> dedup_spec p xs ! (m - 1) = p)"
proof (induction p xs arbitrary: m rule: dedup_spec.induct)
  case (3 p x y ys)
  obtain zs where zs: "dedup_spec p (y # ys) = y # zs"
    using dedup_spec_hd by blast
  show ?case
  proof (cases "y = p \<and> y = x")
    case True
    then have "y = p" "x = p" by auto
    then have "dedup_spec p (x # y # ys) = dedup_spec p (y # ys)" by simp
    with 3(1)[OF True] 3(3,4) show ?thesis by simp
  next
    case False
    then have eq: "dedup_spec p (x # y # ys) = x # dedup_spec p (y # ys)" by auto
    show ?thesis
    proof (cases "m = 1")
      case True
      with False eq zs show ?thesis by auto
    next
      case False
      then obtain m' where m': "m = Suc m'" "0 < m'" using 3(3) by (cases m) auto
      with 3(2)[of m'] \<open>\<not> (y = p \<and> y = x)\<close> 3(4) eq show ?thesis by simp
    qed
  qed
qed simp_all

lemma dedup_spec_run: "dedup_spec p (p # replicate m p) = [p]"
  by (induction m) auto

lemma pair_then_literal_Cons:
  assumes "pair_then_literal p xs" shows "pair_then_literal p (x # xs)"
proof -
  from assms obtain k j where
    "0 < k" "k < j" "j < length xs" "xs ! (k - 1) = p" "xs ! k = p" "xs ! j \<noteq> p"
    unfolding pair_then_literal_def by blast
  then have "0 < Suc k \<and> Suc k < Suc j \<and> Suc j < length (x # xs) \<and> (x # xs) ! (Suc k - 1) = p
      \<and> (x # xs) ! Suc k = p \<and> (x # xs) ! Suc j \<noteq> p"
    by (cases k) auto
  then show ?thesis unfolding pair_then_literal_def by blast
qed

lemma dedup_arr_unchanged:
  "\<not> pair_then_literal p xs \<Longrightarrow>
     dedup_spec p xs @ drop (length (dedup_spec p xs)) xs = xs"
proof (induction p xs rule: dedup_spec.induct)
  case (3 p x y ys)
  show ?case
  proof (cases "y = p \<and> y = x")
    case True
    then have yx: "y = p" "x = p" by auto
    have "\<forall>j < length ys. ys ! j = p"
    proof (intro allI impI)
      fix j assume j: "j < length ys"
      show "ys ! j = p"
      proof (rule ccontr)
        assume "ys ! j \<noteq> p"
        then have "0 < (1::nat) \<and> 1 < Suc (Suc j) \<and> Suc (Suc j) < length (x # y # ys)
            \<and> (x # y # ys) ! (1 - 1) = p \<and> (x # y # ys) ! 1 = p \<and> (x # y # ys) ! Suc (Suc j) \<noteq> p"
          using j yx by simp
        then have "pair_then_literal p (x # y # ys)"
          unfolding pair_then_literal_def by blast
        with 3(3) show False by simp
      qed
    qed
    then have "ys = replicate (length ys) p"
      by (intro nth_equalityI) auto
    then obtain m where m: "ys = replicate m p" ..
    have "dedup_spec p (x # y # ys) = [p]"
      using yx m dedup_spec_run[of p "Suc m"] by simp
    then show ?thesis using yx by simp
  next
    case False
    then have eq: "dedup_spec p (x # y # ys) = x # dedup_spec p (y # ys)" by auto
    have "\<not> pair_then_literal p (y # ys)"
      using 3(3) pair_then_literal_Cons by blast
    from 3(2)[OF False this] eq show ?thesis by simp
  qed
qed simp_all

lemma literal_count_mono:
  "length xs = length ys \<Longrightarrow> (\<forall>m < length xs. xs ! m = p \<longrightarrow> ys ! m = p) \<Longrightarrow>
     length (filter (\<lambda>t. t \<noteq> p) ys) \<le> length (filter (\<lambda>t. t \<noteq> p) xs)"
proof (induction xs ys rule: list_induct2)
  case (Cons x xs y ys)
  have "\<forall>m < length xs. xs ! m = p \<longrightarrow> ys ! m = p"
    using Cons.prems by (metis Suc_less_eq length_Cons nth_Cons_Suc)
  moreover have "x = p \<longrightarrow> y = p" using Cons.prems by (metis length_greater_0_conv list.discI nth_Cons_0)
  ultimately show ?case using Cons.IH by auto
qed simp

lemma dedup_arr_moves_literal:
  assumes "pair_then_literal p xs"
  defines "n \<equiv> length (dedup_spec p xs)"
  defines "xs' \<equiv> dedup_spec p xs @ drop n xs"
  shows "\<exists>m < length xs. xs ! m = p \<and> xs' ! m \<noteq> p"
proof (rule ccontr)
  assume "\<not> ?thesis"
  then have stay: "\<forall>m < length xs. xs ! m = p \<longrightarrow> xs' ! m = p" by blast
  from assms(1) obtain k j where kj:
    "0 < k" "k < j" "j < length xs" "xs ! (k - 1) = p" "xs ! k = p" "xs ! j \<noteq> p"
    unfolding pair_then_literal_def by blast
  have nle: "n \<le> length xs" unfolding n_def by (rule dedup_spec_length)
  have len: "length xs' = length xs" using nle unfolding xs'_def n_def by simp
  have "n \<le> k"
  proof (rule ccontr)
    assume "\<not> n \<le> k"
    then have kn: "k < n" by simp
    then have "k - 1 < n" by simp
    with kn have "xs' ! k = dedup_spec p xs ! k" "xs' ! (k - 1) = dedup_spec p xs ! (k - 1)"
      unfolding xs'_def n_def by (simp_all add: nth_append)
    moreover have "xs' ! k = p" "xs' ! (k - 1) = p" using stay kj by simp_all
    ultimately show False using dedup_spec_no_pair[of k p xs] kj(1) kn unfolding n_def by simp
  qed
  then have "drop n xs ! (j - n) = xs ! j" "j - n < length (drop n xs)"
    using kj by simp_all
  then have "xs ! j \<in> set (drop n xs)"
    by (metis nth_mem)
  then have "filter (\<lambda>t. t \<noteq> p) (drop n xs) \<noteq> []"
    using kj(6) by (auto simp: filter_empty_conv)
  then have "length (filter (\<lambda>t. t \<noteq> p) xs) < length (filter (\<lambda>t. t \<noteq> p) xs')"
    unfolding xs'_def by (simp add: dedup_spec_literals)
  moreover have "length (filter (\<lambda>t. t \<noteq> p) xs') \<le> length (filter (\<lambda>t. t \<noteq> p) xs)"
    using literal_count_mono[OF len[symmetric] stay] .
  ultimately show False by simp
qed

text \<open>
  Claim C10. \<^verbatim>\<open>deduplicatePlaceholders\<close> is idempotent: for every token list and every
  placeholder string, applying it to its own result gives that result again.
\<close>

theorem dedup_idem: "deduplicatePlaceholders (deduplicatePlaceholders xs p) p = deduplicatePlaceholders xs p"
  by (simp add: dedup_eq_spec dedup_spec_idem)

theorem dedup_idem_witness:
  "deduplicatePlaceholders (deduplicatePlaceholders [''a'', ''<_>'', ''<_>'', ''<_>'', ''b''] ''<_>'') ''<_>''
     = [''a'', ''<_>'', ''b'']"
proof -
  have e: "deduplicatePlaceholders [''a'', ''<_>'', ''<_>'', ''<_>'', ''b''] ''<_>'' = [''a'', ''<_>'', ''b'']"
    by code_simp
  show ?thesis
    using dedup_idem[of "[''a'', ''<_>'', ''<_>'', ''<_>'', ''b'']" "''<_>''"] e by simp
qed

text \<open>
  Claim C4, as amended. \<^verbatim>\<open>PatternString\<close> writes into the template of its cluster. The
  template keeps its length; it differs after the call exactly when it holds an adjacent
  pair of placeholders that is followed later by a token other than the placeholder; and
  then some position that held the placeholder holds another token afterwards. A pair
  that only placeholders follow leaves the template as it was.
\<close>

theorem PatternString_rewrites_template:
  fixes cfg :: Config and c :: LogCluster
  defines "p \<equiv> ParamString cfg"
  defines "xs \<equiv> Tokens c"
  defines "xs' \<equiv> Tokens (snd (PatternString cfg c))"
  shows "length xs' = length xs
    \<and> (xs' \<noteq> xs \<longleftrightarrow> pair_then_literal p xs)
    \<and> (pair_then_literal p xs \<longrightarrow> (\<exists>m < length xs. xs ! m = p \<and> xs' ! m \<noteq> p))"
proof -
  have eq: "xs' = dedup_spec p xs @ drop (length (dedup_spec p xs)) xs"
    unfolding xs'_def xs_def p_def by (simp add: PatternString_def dedup_arr_eq Let_def)
  have a: "length xs' = length xs"
    using dedup_spec_length[of p xs] unfolding eq by simp
  have c: "pair_then_literal p xs \<longrightarrow> (\<exists>m < length xs. xs ! m = p \<and> xs' ! m \<noteq> p)"
    using dedup_arr_moves_literal[of p xs] unfolding eq by blast
  have b: "xs' \<noteq> xs \<longleftrightarrow> pair_then_literal p xs"
    using c dedup_arr_unchanged[of p xs] unfolding eq by metis
  from a b c show ?thesis by blast
qed

theorem PatternString_rewrites_template_witness:
  "pair_then_literal ''<_>'' [''a'', ''<_>'', ''<_>'', ''z'']
   \<and> Tokens (snd (PatternString DefaultConfig
         \<lparr>Tokens = [''a'', ''<_>'', ''<_>'', ''z''], cluster_id = 1, Size = 1\<rparr>))
       \<noteq> [''a'', ''<_>'', ''<_>'', ''z'']"
proof -
  have p: "pair_then_literal ''<_>'' [''a'', ''<_>'', ''<_>'', ''z'']"
    unfolding pair_then_literal_def
    by (rule exI[of _ 2], rule exI[of _ 3]) simp
  show ?thesis
    using p PatternString_rewrites_template
      [of DefaultConfig "\<lparr>Tokens = [''a'', ''<_>'', ''<_>'', ''z''], cluster_id = 1, Size = 1\<rparr>"]
    by (simp add: DefaultConfig_def)
qed

text \<open>
  The claim as stated fails on a template whose placeholder pair ends it: the call leaves
  \<open>[a, <_>, <_>]\<close> as it is.
\<close>

theorem PatternString_trailing_pair_counterexample:
  "Tokens (snd (PatternString DefaultConfig
       \<lparr>Tokens = [''a'', ''<_>'', ''<_>''], cluster_id = 1, Size = 1\<rparr>))
     = [''a'', ''<_>'', ''<_>'']
   \<and> [''a'', ''<_>'', ''<_>''] ! 1 = ParamString DefaultConfig
   \<and> [''a'', ''<_>'', ''<_>''] ! 2 = ParamString DefaultConfig"
  by code_simp

section \<open>Similarity\<close>

lemma seq_loop_eq:
  fixes p :: string
  defines "R \<equiv> (\<lambda>e. 0 < length (fst e) \<and> hd (fst e) = CHR 0x00 \<and> fst e \<noteq> snd e)"
  shows "seq_loop p zs s c =
     (if \<exists>e \<in> set zs. R e then None
      else Some (s + int (length (filter (\<lambda>e. fst e \<noteq> p \<and> fst e = snd e) zs)),
                 c + int (length (filter (\<lambda>e. fst e = p) zs))))"
proof (induction zs arbitrary: s c)
  case Nil
  show ?case by simp
next
  case (Cons e zs)
  obtain a b where e: "e = (a, b)" by (cases e)
  have R: "R (a, b) \<longleftrightarrow> 0 < length a \<and> hd a = CHR 0x00 \<and> a \<noteq> b"
    by (simp add: R_def)
  show ?case
  proof (cases "R (a, b)")
    case True
    then show ?thesis using R by (simp add: e)
  next
    case False
    then have "\<not> (0 < length a \<and> hd a = CHR 0x00 \<and> a \<noteq> b)" using R by simp
    then have "seq_loop p (e # zs) s c =
        (if a = p then seq_loop p zs s (c + 1)
         else if a = b then seq_loop p zs (s + 1) c else seq_loop p zs s c)"
      unfolding e by (subst seq_loop.simps) (simp only: if_False)
    then show ?thesis
      using False by (simp add: e Cons.IH)
  qed
qed

text \<open>
  Claim C8. For a template and a query of equal length, \<^verbatim>\<open>getSeqDistance\<close> returns
  \<open>(0, -1)\<close> if some template position begins with the zero byte and differs from the
  query there; otherwise \<open>param_count\<close> is the number of placeholder positions of the
  template, \<open>sim_tokens\<close> the number of the other positions where template and query
  agree, and the similarity is \<open>(sim_tokens + (param_count if include_params else 0))\<close>
  divided by the length of the template.
\<close>

theorem getSeqDistance_spec:
  assumes "length template = length query"
  shows "getSeqDistance cfg template query includeParams =
    (if \<exists>i < length template. 0 < length (template ! i) \<and> hd (template ! i) = CHR 0x00
           \<and> template ! i \<noteq> query ! i
     then Inr (Fin 0, - 1)
     else
       (let param_count = int (card {i. i < length template \<and> template ! i = ParamString cfg});
            sim_tokens = int (card {i. i < length template \<and> template ! i \<noteq> ParamString cfg
                                        \<and> template ! i = query ! i})
        in Inr (float_div (sim_tokens + (if includeParams then param_count else 0))
                  (int (length template)), param_count)))"
proof -
  let ?zs = "zip template query"
  let ?R = "\<lambda>e. 0 < length (fst e) \<and> hd (fst e) = CHR 0x00 \<and> fst e \<noteq> snd e"
  have ex: "(\<exists>e \<in> set ?zs. ?R e)
      \<longleftrightarrow> (\<exists>i < length template. 0 < length (template ! i) \<and> hd (template ! i) = CHR 0x00
           \<and> template ! i \<noteq> query ! i)" (is "?A \<longleftrightarrow> ?B")
  proof
    assume ?A
    then obtain e where "e \<in> set ?zs" "?R e" by blast
    then obtain i where "i < length template" "e = (template ! i, query ! i)"
      using assms by (auto simp: set_zip)
    with \<open>?R e\<close> show ?B by auto
  next
    assume ?B
    then obtain i where i: "i < length template" "?R (template ! i, query ! i)" by auto
    then have "(template ! i, query ! i) \<in> set ?zs"
      using assms by (auto simp: set_zip)
    with i show ?A by blast
  qed
  have pc: "length (filter (\<lambda>e. fst e = ParamString cfg) ?zs)
      = card {i. i < length template \<and> template ! i = ParamString cfg}"
    unfolding length_filter_conv_card using assms
    by (intro arg_cong[where f = card]) auto
  have st: "length (filter (\<lambda>e. fst e \<noteq> ParamString cfg \<and> fst e = snd e) ?zs)
      = card {i. i < length template \<and> template ! i \<noteq> ParamString cfg \<and> template ! i = query ! i}"
    unfolding length_filter_conv_card using assms
    by (intro arg_cong[where f = card]) auto
  have ne: "(length template \<noteq> length query) = False" using assms by simp
  show ?thesis
    unfolding getSeqDistance_def seq_loop_eq ex pc st ne
    apply (cases "\<exists>i < length template. 0 < length (template ! i) \<and> hd (template ! i) = CHR 0x00
           \<and> template ! i \<noteq> query ! i")
     apply (simp_all only: if_True if_False option.case prod.case Let_def add_0)
    apply (cases includeParams)
     apply simp_all
    done
qed

theorem getSeqDistance_spec_witness:
  "length [''a'', ''<_>'', ''c'', ''d''] = length [''a'', ''x'', ''c'', ''e'']
   \<and> getSeqDistance DefaultConfig [''a'', ''<_>'', ''c'', ''d''] [''a'', ''x'', ''c'', ''e''] True
     = Inr (Fin (3 / 4), 1)"
proof -
  have l: "length [''a'', ''<_>'', ''c'', ''d''] = length [''a'', ''x'', ''c'', ''e'']"
    by simp
  have e: "getSeqDistance DefaultConfig [''a'', ''<_>'', ''c'', ''d''] [''a'', ''x'', ''c'', ''e''] True
     = Inr (Fin (3 / 4), 1)"
    by (simp add: getSeqDistance_def DefaultConfig_def float_div_def)
  show ?thesis
    using getSeqDistance_spec[OF l, of DefaultConfig True] e l by simp
qed

section \<open>The cache and the search\<close>

lemma map_of_move_to_front:
  "map_of xs k = Some v \<Longrightarrow> map_of (move_to_front k v xs) = map_of xs"
proof
  fix k'
  assume h: "map_of xs k = Some v"
  have f: "\<And>j. j \<noteq> k \<Longrightarrow> map_of (filter (\<lambda>e. fst e \<noteq> k) xs) j = map_of xs j"
    by (induction xs) auto
  have g: "map_of (filter (\<lambda>e. fst e \<noteq> k) xs) k = None"
    by (induction xs) auto
  show "map_of (move_to_front k v xs) k' = map_of xs k'"
    using h f g by (cases "k' = k") (auto simp: move_to_front_def map_add_def split: option.splits)
qed

lemma lru_Get_frame:
  "lru_Get c k = (c', r) \<Longrightarrow>
     map_of (items c') = map_of (items c) \<and> cache_size c' = cache_size c \<and> r = map_of (items c) k"
  by (auto simp: lru_Get_def map_of_move_to_front split: option.splits)

lemma fastMatch_loop_frame:
  "fastMatch_loop cfg ids tokens inc (cache, S, P, C) = Inr (cache', S', P', C') \<Longrightarrow>
     map_of (items cache') = map_of (items cache) \<and> cache_size cache' = cache_size cache"
proof (induction ids arbitrary: cache S P C)
  case Nil
  then show ?case by simp
next
  case (Cons clusterID ids)
  obtain c1 r where g: "lru_Get cache clusterID = (c1, r)" by (cases "lru_Get cache clusterID")
  note fr = lru_Get_frame[OF g]
  from Cons.prems g obtain S1 P1 C1 where
    "fastMatch_loop cfg ids tokens inc (c1, S1, P1, C1) = Inr (cache', S', P', C')"
    by (auto split: option.splits sum.splits prod.splits if_splits)
  from Cons.IH[OF this] fr show ?case by simp
qed

lemma fastMatch_loop_score:
  assumes "fastMatch_loop cfg ids tokens inc (cache, S, P, C) = Inr (cache', S', P', C')"
    and "\<And>c. C = Some c \<Longrightarrow> getSeqDistance cfg (Tokens c) tokens inc = Inr (S, P)"
    and "C' = Some c'"
  shows "getSeqDistance cfg (Tokens c') tokens inc = Inr (S', P')"
  using assms
proof (induction ids arbitrary: cache S P C)
  case Nil
  then show ?case by simp
next
  case (Cons clusterID ids)
  obtain c1 r where g: "lru_Get cache clusterID = (c1, r)" by (cases "lru_Get cache clusterID")
  from Cons.prems(1) g obtain S1 P1 C1 where
    nxt: "fastMatch_loop cfg ids tokens inc (c1, S1, P1, C1) = Inr (cache', S', P', C')"
    and sc: "(S1, P1, C1) = (S, P, C) \<or>
         (\<exists>cl. C1 = Some cl \<and> getSeqDistance cfg (Tokens cl) tokens inc = Inr (S1, P1))"
    by (auto split: option.splits sum.splits prod.splits if_splits)
  have "\<And>c. C1 = Some c \<Longrightarrow> getSeqDistance cfg (Tokens c) tokens inc = Inr (S1, P1)"
    using sc Cons.prems(2) by auto
  from Cons.IH[OF nxt this Cons.prems(3)] show ?case .
qed

lemma filter_disjoint_length:
  "(\<And>e. \<not> (A e \<and> B e)) \<Longrightarrow> length (filter A zs) + length (filter B zs) \<le> length zs"
  by (induction zs) auto

lemma getSeqDistance_le_one:
  assumes "getSeqDistance cfg t q inc = Inr (S, P)" "fge S (Fin 1)"
  shows "S = Fin 1"
proof -
  let ?zs = "zip t q"
  let ?st = "length (filter (\<lambda>e. fst e \<noteq> ParamString cfg \<and> fst e = snd e) ?zs)"
  let ?pc = "length (filter (\<lambda>e. fst e = ParamString cfg) ?zs)"
  from assms(1) have len: "length t = length q"
    by (auto simp: getSeqDistance_def split: if_splits)
  have b: "?st + ?pc \<le> length t"
    using filter_disjoint_length[of "\<lambda>e. fst e \<noteq> ParamString cfg \<and> fst e = snd e"
        "\<lambda>e. fst e = ParamString cfg" ?zs] len by simp
  from assms(1) len consider "S = Fin 0"
    | "S = float_div (if inc then int ?st + int ?pc else int ?st) (int (length t))"
    unfolding getSeqDistance_def seq_loop_eq by (auto split: if_splits)
  then show ?thesis
  proof cases
    case 1
    with assms(2) show ?thesis by simp
  next
    case 2
    let ?x = "if inc then int ?st + int ?pc else int ?st"
    have x: "?x \<le> int (length t)" using b by auto
    from 2 assms(2) have n: "length t \<noteq> 0" by (auto simp: float_div_def)
    then have S: "S = Fin (of_int ?x / of_int (int (length t)))"
      using 2 by (simp add: float_div_def)
    with assms(2) have "(1::rat) \<le> of_int ?x / of_int (int (length t))" by simp
    then have "int (length t) \<le> ?x"
      using n by (simp add: pos_le_divide_eq)
    with x have "?x = int (length t)" by simp
    with S n show ?thesis by simp
  qed
qed

lemma fastMatch_exact:
  assumes "fastMatch cfg cache ids tokens (Fin 1) inc = Inr (cache', Some c)"
  shows "\<exists>pc. getSeqDistance cfg (Tokens c) tokens inc = Inr (Fin 1, pc)"
proof -
  from assms obtain S P C where
    l: "fastMatch_loop cfg ids tokens inc (cache, Fin (- 1), - 1, None) = Inr (cache', S, P, C)"
    and r: "fge S (Fin 1)" "C = Some c"
    by (auto simp: fastMatch_def split: sum.splits if_splits)
  have "getSeqDistance cfg (Tokens c) tokens inc = Inr (S, P)"
    by (rule fastMatch_loop_score[OF l _ r(2)]) simp
  with getSeqDistance_le_one[OF this r(1)] show ?thesis by blast
qed

lemma New_default: "New DefaultConfig = Inr engine0"
  by code_simp

section \<open>\<^verbatim>\<open>Match\<close> and \<^verbatim>\<open>MatchTokens\<close>\<close>

text \<open>
  Claim C1, as amended. For a query of at least two tokens, any cluster that
  \<^verbatim>\<open>MatchTokens\<close> (and so \<^verbatim>\<open>Match\<close>, which is \<^verbatim>\<open>MatchTokens\<close> on the split content)
  returns has similarity exactly 1.0, computed with \<open>include_params = true\<close>, against the
  query tokens as the search leaves them (a position whose exact edge was missing holds
  the normalised token). For a query of fewer than two tokens whose length bucket exists,
  the result is the cluster stored under the first id of the bucket, with no similarity
  test.
\<close>

theorem MatchTokens_exact:
  "(2 \<le> length tokens \<longrightarrow> MatchTokens E d tokens = Inr (d', tokens', Some c) \<longrightarrow>
      (\<exists>pc. getSeqDistance (config d) (Tokens c) tokens' True = Inr (Fin 1, pc)))
   \<and> (length tokens < 2 \<longrightarrow>
        map_of (keyToChildNode (rootNode d)) (Itoa (length tokens)) = Some bucket \<longrightarrow>
        clusterIDs bucket = first # others \<longrightarrow>
        MatchTokens E d tokens =
          Inr (d\<lparr>idToCluster := fst (lru_Get (idToCluster d) first)\<rparr>, tokens,
               lru_Peek (idToCluster d) first))"
proof (intro conjI impI)
  assume n: "2 \<le> length tokens" and m: "MatchTokens E d tokens = Inr (d', tokens', Some c)"
  from m n obtain leaf cache' where
    "fastMatch (config d) (idToCluster d) (clusterIDs leaf) tokens' (Fin 1) True = Inr (cache', Some c)"
    by (auto simp: MatchTokens_def treeSearch_def Let_def split: sum.splits option.splits prod.splits if_splits)
  then show "\<exists>pc. getSeqDistance (config d) (Tokens c) tokens' True = Inr (Fin 1, pc)"
    by (rule fastMatch_exact)
next
  assume "length tokens < 2"
    "map_of (keyToChildNode (rootNode d)) (Itoa (length tokens)) = Some bucket"
    "clusterIDs bucket = first # others"
  then show "MatchTokens E d tokens =
          Inr (d\<lparr>idToCluster := fst (lru_Get (idToCluster d) first)\<rparr>, tokens,
               lru_Peek (idToCluster d) first)"
    by (auto simp: MatchTokens_def treeSearch_def Let_def lru_Get_def lru_Peek_def split: option.splits)
qed

theorem MatchTokens_exact_witness:
  "2 \<le> length [''a'', ''b'']
   \<and> MatchTokens plain_env (engine_ab_cd [1, 2]) [''a'', ''b'']
       = Inr (engine_ab_cd [2, 1], [''a'', ''b''], Some \<lparr>Tokens = [''a'', ''b''], cluster_id = 1, Size = 2\<rparr>)
   \<and> (\<exists>pc. getSeqDistance (config (engine_ab_cd [1, 2])) [''a'', ''b''] [''a'', ''b''] True = Inr (Fin 1, pc))"
proof -
  have m: "MatchTokens plain_env (engine_ab_cd [1, 2]) [''a'', ''b'']
       = Inr (engine_ab_cd [2, 1], [''a'', ''b''], Some \<lparr>Tokens = [''a'', ''b''], cluster_id = 1, Size = 2\<rparr>)"
    by code_simp
  have l: "2 \<le> length [''a'', ''b'']" by simp
  from MatchTokens_exact[where tokens = "[''a'', ''b'']" and E = plain_env and d = "engine_ab_cd [1, 2]"
      and d' = "engine_ab_cd [2, 1]" and tokens' = "[''a'', ''b'']"
      and c = "\<lparr>Tokens = [''a'', ''b''], cluster_id = 1, Size = 2\<rparr>"] m l
  have "\<exists>pc. getSeqDistance (config (engine_ab_cd [1, 2])) [''a'', ''b''] [''a'', ''b''] True = Inr (Fin 1, pc)"
    by simp
  with m l show ?thesis by blast
qed

text \<open>
  The claim as stated fails for a query of one token: after training \<open>bar\<close>, matching
  \<open>foo\<close> returns the cluster with template \<open>[bar]\<close>, whose similarity against \<open>[foo]\<close>
  is 0.
\<close>

theorem Match_single_token_counterexample:
  "run_new plain_env DefaultConfig [OpTrain ''bar''] = Inr engine_bar
   \<and> Match plain_env engine_bar ''foo''
       = Inr (engine_bar, [''foo''], Some \<lparr>Tokens = [''bar''], cluster_id = 1, Size = 2\<rparr>)
   \<and> getSeqDistance (config engine_bar) [''bar''] [''foo''] True = Inr (Fin 0, 0)"
  by code_simp

lemma search_loop_tokens:
  assumes "search_loop E cfg tc rest i depth cur tokens = (r, tokens')"
    and "rest = drop i orig" and "length tokens = length orig"
    and "\<forall>j<length orig. tokens ! j = orig ! j \<or> tokens ! j = Preprocess E (orig ! j)"
  shows "length tokens' = length orig
    \<and> (\<forall>j<length orig. tokens' ! j = orig ! j \<or> tokens' ! j = Preprocess E (orig ! j))"
  using assms
proof (induction rest arbitrary: i depth cur tokens)
  case Nil
  then show ?case by simp
next
  case (Cons token rest)
  from Cons.prems(2) have i: "i < length orig"
    by (metis drop_all list.discI not_le)
  from Cons.prems(2) Cons_nth_drop_Suc[OF i] have "token # rest = orig ! i # drop (Suc i) orig"
    by simp
  then have tk: "token = orig ! i" "rest = drop (Suc i) orig"
    by simp_all
  let ?t2 = "tokens[i := Preprocess E token]"
  have t2: "length ?t2 = length orig"
    "\<forall>j<length orig. ?t2 ! j = orig ! j \<or> ?t2 ! j = Preprocess E (orig ! j)"
    using Cons.prems(3,4) tk(1) i by (auto simp: nth_list_update)
  from Cons.prems(1) consider
      "tokens' = tokens"
    | nxt where "search_loop E cfg tc rest (i + 1) (depth + 1) nxt tokens = (r, tokens')"
    | nxt where "search_loop E cfg tc rest (i + 1) (depth + 1) nxt ?t2 = (r, tokens')"
    by (auto simp: Let_def split: if_splits option.splits)
  then show ?case
  proof cases
    case 1
    with Cons.prems show ?thesis by simp
  next
    case 2
    from Cons.IH[OF 2 _ Cons.prems(3,4)] tk show ?thesis by simp
  next
    case 3
    from Cons.IH[OF 3 _ t2] tk show ?thesis by simp
  qed
qed

lemma fastMatch_frame:
  "fastMatch cfg cache ids tokens simTh inc = Inr (cache', r) \<Longrightarrow>
     map_of (items cache') = map_of (items cache) \<and> cache_size cache' = cache_size cache"
  by (auto simp: fastMatch_def split: sum.splits dest: fastMatch_loop_frame)

lemma treeSearch_frame:
  assumes "treeSearch E cfg cache rootN tokens simTh inc = Inr (tokens', cache', r)"
  shows "map_of (items cache') = map_of (items cache) \<and> cache_size cache' = cache_size cache
    \<and> length tokens' = length tokens
    \<and> (\<forall>j<length tokens. tokens' ! j = tokens ! j \<or> tokens' ! j = Preprocess E (tokens ! j))"
proof -
  from assms consider
      "tokens' = tokens" "cache' = cache"
    | first where "tokens' = tokens" "lru_Get cache first = (cache', r)"
    | cur where "search_loop E cfg (int (length tokens)) tokens 0 1 cur tokens = (None, tokens')"
        "cache' = cache"
    | cur leaf where "search_loop E cfg (int (length tokens)) tokens 0 1 cur tokens = (Some leaf, tokens')"
        "fastMatch cfg cache (clusterIDs leaf) tokens' simTh inc = Inr (cache', r)"
    by (auto simp: treeSearch_def Let_def split: option.splits if_splits list.splits prod.splits sum.splits)
  then show ?thesis
  proof cases
    case 1
    then show ?thesis by simp
  next
    case 2
    with lru_Get_frame[OF 2(2)] show ?thesis by simp
  next
    case 3
    with search_loop_tokens[OF 3(1), of tokens] show ?thesis by simp
  next
    case 4
    with search_loop_tokens[OF 4(1), of tokens] fastMatch_frame[OF 4(2)] show ?thesis by simp
  qed
qed

text \<open>
  Claim C3, as amended. \<^verbatim>\<open>MatchTokens\<close> (and so \<^verbatim>\<open>Match\<close>) leaves the prefix tree, the
  configuration and the counter unchanged, and every id of the store resolves to the
  same cluster (template and size) as before. The query slice keeps its length, and each
  of its positions holds either its token or the normalised form of that token. The
  statement is about a query slice that no cluster shares; it says nothing about the
  recency order.
\<close>

theorem MatchTokens_frame:
  assumes "MatchTokens E d tokens = Inr (d', tokens', r)"
  shows "rootNode d' = rootNode d \<and> config d' = config d
    \<and> clustersCounter d' = clustersCounter d
    \<and> cache_size (idToCluster d') = cache_size (idToCluster d)
    \<and> (\<forall>k. lru_Peek (idToCluster d') k = lru_Peek (idToCluster d) k)
    \<and> length tokens' = length tokens
    \<and> (\<forall>j<length tokens. tokens' ! j = tokens ! j \<or> tokens' ! j = Preprocess E (tokens ! j))"
proof -
  from assms obtain cache' where
    t: "treeSearch E (config d) (idToCluster d) (rootNode d) tokens (Fin 1) True = Inr (tokens', cache', r)"
    and d': "d' = d\<lparr>idToCluster := cache'\<rparr>"
    by (auto simp: MatchTokens_def split: sum.splits)
  from treeSearch_frame[OF t] d' show ?thesis by (simp add: lru_Peek_def)
qed

theorem MatchTokens_frame_witness:
  "MatchTokens plain_env (engine_ab_cd [1, 2]) [''a'', ''b'']
       = Inr (engine_ab_cd [2, 1], [''a'', ''b''], Some \<lparr>Tokens = [''a'', ''b''], cluster_id = 1, Size = 2\<rparr>)
   \<and> rootNode (engine_ab_cd [2, 1]) = rootNode (engine_ab_cd [1, 2])
   \<and> lru_Peek (idToCluster (engine_ab_cd [2, 1])) 1 = lru_Peek (idToCluster (engine_ab_cd [1, 2])) 1
   \<and> lru_Peek (idToCluster (engine_ab_cd [2, 1])) 2 = lru_Peek (idToCluster (engine_ab_cd [1, 2])) 2"
proof -
  have m: "MatchTokens plain_env (engine_ab_cd [1, 2]) [''a'', ''b'']
       = Inr (engine_ab_cd [2, 1], [''a'', ''b''], Some \<lparr>Tokens = [''a'', ''b''], cluster_id = 1, Size = 2\<rparr>)"
    by code_simp
  from MatchTokens_frame[OF m] m show ?thesis by blast
qed

text \<open>
  The claim as stated fails twice. The candidates are fetched with \<^verbatim>\<open>Get\<close>, which moves
  them to the front of the LRU: matching \<open>a b\<close> turns the recency order \<open>[1, 2]\<close> into
  \<open>[2, 1]\<close>. And with a normaliser that maps digit strings to \<open><NUM>\<close> the caller's
  slice \<open>[id, 99, ok]\<close> comes back as \<open>[id, <NUM>, ok]\<close>.
\<close>

theorem Match_recency_counterexample:
  "run_new plain_env DefaultConfig [OpTrain ''a b'', OpTrain ''c d''] = Inr (engine_ab_cd [1, 2])
   \<and> Match plain_env (engine_ab_cd [1, 2]) ''a b''
       = Inr (engine_ab_cd [2, 1], [''a'', ''b''], Some \<lparr>Tokens = [''a'', ''b''], cluster_id = 1, Size = 2\<rparr>)
   \<and> lru_Keys (idToCluster (engine_ab_cd [1, 2])) = [1, 2]
   \<and> lru_Keys (idToCluster (engine_ab_cd [2, 1])) = [2, 1]
   \<and> run_new digit_env DefaultConfig [OpTrainTokens [''id'', ''<NUM>'', ''ok'']] = Inr engine_num
   \<and> MatchTokens digit_env engine_num [''id'', ''99'', ''ok'']
       = Inr (engine_num, [''id'', ''<NUM>'', ''ok''],
              Some \<lparr>Tokens = [''id'', ''<NUM>'', ''ok''], cluster_id = 1, Size = 2\<rparr>)"
  by code_simp

section \<open>Scenarios\<close>

text \<open>
  Claim C7, as amended. With the default configuration and tokens split on the space,
  whatever the normaliser: the first of the lines \<open>k v1\<close> ... \<open>k v9\<close> creates the edge
  \<open>k\<close> under the length bucket \<open>2\<close>, and the node for \<open>k\<close> is the leaf; it has no
  outgoing edge after line 8 nor after line 9. Lines 2 to 9 are absorbed by similarity
  into the cluster of line 1, and exactly one cluster exists, with template \<open>[k, <_>]\<close>.
\<close>

theorem nine_lines_one_cluster:
  fixes N :: "string \<Rightarrow> string" and pk :: "string list \<Rightarrow> string"
  defines "E \<equiv> \<lparr>Preprocess = N, Marshal = Split CHR '' '', pickKey = pk\<rparr>"
  shows "edges_of (run_new E DefaultConfig (map OpTrain (take 1 k_lines))) [''2''] = Some [''k'']
    \<and> edges_of (run_new E DefaultConfig (map OpTrain (take 8 k_lines))) [''2'', ''k''] = Some []
    \<and> edges_of (run_new E DefaultConfig (map OpTrain k_lines)) [''2'', ''k''] = Some []
    \<and> recency_of (run_new E DefaultConfig (map OpTrain k_lines)) = Some [1]
    \<and> template_of (run_new E DefaultConfig (map OpTrain k_lines)) 1 = Some [''k'', ''<_>'']"
  unfolding E_def by code_simp

theorem nine_lines_one_cluster_witness:
  "edges_of (run_new plain_env DefaultConfig (map OpTrain (take 8 k_lines))) [''2'', ''k''] = Some []
   \<and> template_of (run_new plain_env DefaultConfig (map OpTrain k_lines)) 1 = Some [''k'', ''<_>'']"
  using nine_lines_one_cluster[of "\<lambda>t. t" last] by (simp add: plain_env_def)

text \<open>
  The claim as stated fails: after line 8 the node for \<open>k\<close> has no edges, not seven
  literal edges and the placeholder edge.
\<close>

theorem nine_lines_no_edges_counterexample:
  "edges_of (run_new plain_env DefaultConfig (map OpTrain (take 8 k_lines))) [''2'', ''k''] \<noteq>
     Some [''v1'', ''v2'', ''v3'', ''v4'', ''v5'', ''v6'', ''v7'', ''<_>'']
   \<and> edges_of (run_new plain_env DefaultConfig (map OpTrain (take 8 k_lines))) [''2'', ''k''] = Some []
   \<and> edges_of (run_new plain_env DefaultConfig (map OpTrain (take 8 k_lines))) [''2''] = Some [''k'']"
  by code_simp

text \<open>
  Claim C6 at its failing input. Two lines of 18 tokens that differ at positions 15 and
  16 give the template \<open>[a, ..., o, <_>, <_>, z]\<close>; \<^verbatim>\<open>PatternString\<close> on that cluster
  leaves \<open>[a, ..., o, <_>, z, z]\<close>: position 16 held the placeholder and holds a literal.
\<close>

theorem PatternString_breaks_monotone:
  "template_of (run_new plain_env DefaultConfig (map OpTrain wide_lines)) 1
     = Some [''a'', ''b'', ''c'', ''d'', ''e'', ''f'', ''g'', ''h'', ''i'', ''j'', ''k'', ''l'', ''m'',
             ''n'', ''o'', ''<_>'', ''<_>'', ''z'']
   \<and> template_of (run_new plain_env DefaultConfig (map OpTrain wide_lines @ [OpPatternString 1])) 1
     = Some [''a'', ''b'', ''c'', ''d'', ''e'', ''f'', ''g'', ''h'', ''i'', ''j'', ''k'', ''l'', ''m'',
             ''n'', ''o'', ''<_>'', ''z'', ''z'']"
  by code_simp


section \<open>Length bucketing\<close>

lemma digit_char_inj: "a < 10 \<Longrightarrow> b < 10 \<Longrightarrow> digit_char a = digit_char b \<Longrightarrow> a = b"
proof -
  assume a: "a < 10" and b: "b < 10" and e: "digit_char a = digit_char b"
  have d: "distinct ''0123456789''" by simp
  have "length ''0123456789'' = 10" by simp
  with a b e d show "a = b"
    unfolding digit_char_def by (metis nth_eq_iff_index_eq)
qed

lemma Itoa_nonempty: "Itoa n \<noteq> []"
  by (subst Itoa.simps) simp

lemma Itoa_inj: "Itoa n = Itoa m \<Longrightarrow> n = m"
proof (induction n arbitrary: m rule: Itoa.induct)
  case (1 n)
  show ?case
  proof (cases "n < 10")
    case True
    then have n: "Itoa n = [digit_char n]" by (subst Itoa.simps) simp
    show ?thesis
    proof (cases "m < 10")
      case mt: True
      then have "Itoa m = [digit_char m]" by (subst Itoa.simps) simp
      with n 1(2) True mt show ?thesis by (simp add: digit_char_inj)
    next
      case False
      then have "Itoa m = Itoa (m div 10) @ [digit_char (m mod 10)]" by (subst Itoa.simps) simp
      with n 1(2) Itoa_nonempty[of "m div 10"] show ?thesis by simp
    qed
  next
    case False
    then have n: "Itoa n = Itoa (n div 10) @ [digit_char (n mod 10)]" by (subst Itoa.simps) simp
    show ?thesis
    proof (cases "m < 10")
      case True
      then have "Itoa m = [digit_char m]" by (subst Itoa.simps) simp
      with n 1(2) Itoa_nonempty[of "n div 10"] show ?thesis by simp
    next
      case mf: False
      then have "Itoa m = Itoa (m div 10) @ [digit_char (m mod 10)]" by (subst Itoa.simps) simp
      with n 1(2) have e: "Itoa (n div 10) = Itoa (m div 10)" "digit_char (n mod 10) = digit_char (m mod 10)"
        by simp_all
      from 1(1)[OF False e(1)] have "n div 10 = m div 10" .
      moreover from e(2) have "n mod 10 = m mod 10" by (simp add: digit_char_inj)
      ultimately show ?thesis by (metis div_mult_mod_eq)
    qed
  qed
qed

lemma set_move_to_front:
  "map_of xs k = Some v \<Longrightarrow> set (move_to_front k v xs) \<subseteq> set xs"
  by (auto simp: move_to_front_def dest: map_of_SomeD)

lemma shape_mono: "set (items c') \<subseteq> set (items c) \<Longrightarrow> shape c' \<subseteq> shape c"
  unfolding shape_def by (rule image_mono)

lemma shape_Get:
  "lru_Get c k = (c', r) \<Longrightarrow> shape c' \<subseteq> shape c"
proof (cases "map_of (items c) k")
  case None
  assume "lru_Get c k = (c', r)"
  with None show ?thesis by (simp add: lru_Get_def)
next
  case (Some v)
  assume "lru_Get c k = (c', r)"
  with Some have "items c' = move_to_front k v (items c)" by (auto simp: lru_Get_def)
  with set_move_to_front[OF Some] show ?thesis by (intro shape_mono) simp
qed

lemma Get_Some_shape:
  assumes "lru_Get c k = (c', Some v)"
  shows "(k, length (Tokens v), cluster_id v) \<in> shape c"
proof -
  from assms have "map_of (items c) k = Some v"
    by (auto simp: lru_Get_def split: option.splits)
  then have "(k, v) \<in> set (items c)" by (rule map_of_SomeD)
  then have "(\<lambda>e. (fst e, length (Tokens (snd e)), cluster_id (snd e))) (k, v) \<in> shape c"
    unfolding shape_def by (rule imageI)
  then show ?thesis by simp
qed

lemma shape_modify:
  assumes "e \<in> shape (modify c k f)"
  shows "e \<in> shape c \<or> (\<exists>cl. (k, cl) \<in> set (items c) \<and> e = (k, length (Tokens (f cl)), cluster_id (f cl)))"
proof -
  from assms obtain x where x: "x \<in> set (items c)"
    and e: "e = (fst (if fst x = k then (fst x, f (snd x)) else x),
                 length (Tokens (snd (if fst x = k then (fst x, f (snd x)) else x))),
                 cluster_id (snd (if fst x = k then (fst x, f (snd x)) else x)))"
    by (auto simp: shape_def modify_def)
  show ?thesis
  proof (cases "fst x = k")
    case True
    then have "(k, snd x) \<in> set (items c)" using x by (metis prod.collapse)
    with e True show ?thesis by auto
  next
    case False
    with e x have "e \<in> shape c" unfolding shape_def by simp
    then show ?thesis ..
  qed
qed

lemma shape_modify_same:
  assumes "\<And>c. length (Tokens (f c)) = length (Tokens c) \<and> cluster_id (f c) = cluster_id c"
  shows "shape (modify c k f) \<subseteq> shape c"
proof
  fix e assume "e \<in> shape (modify c k f)"
  from shape_modify[OF this] show "e \<in> shape c"
  proof
    assume "e \<in> shape c" then show ?thesis .
  next
    assume "\<exists>cl. (k, cl) \<in> set (items c) \<and> e = (k, length (Tokens (f cl)), cluster_id (f cl))"
    then obtain cl where cl: "(k, cl) \<in> set (items c)" "e = (k, length (Tokens (f cl)), cluster_id (f cl))"
      by blast
    from cl(1) have "(\<lambda>e. (fst e, length (Tokens (snd e)), cluster_id (snd e))) (k, cl) \<in> shape c"
      unfolding shape_def by (rule imageI)
    with cl(2) assms show ?thesis by simp
  qed
qed

lemma shape_Set:
  "shape (lru_Set c k v) \<subseteq> insert (k, length (Tokens v), cluster_id v) (shape c)"
proof -
  have "set (tl (items c @ [(k, v)])) \<subseteq> set (items c @ [(k, v)])"
    by (cases "items c @ [(k, v)]") auto
  then show ?thesis
    by (auto simp: lru_Set_def shape_def move_to_front_def Let_def split: option.splits if_splits)
qed

lemma shape_Remove: "shape (lru_Remove c k) \<subseteq> shape c"
  by (auto simp: lru_Remove_def shape_def)

lemma shape_sweep: "sweep c ids = (c', keep) \<Longrightarrow> shape c' \<subseteq> shape c \<and> set keep \<subseteq> set ids"
proof (induction ids arbitrary: c c' keep)
  case Nil
  then show ?case by simp
next
  case (Cons k ids)
  obtain c1 r where g: "lru_Get c k = (c1, r)" by (cases "lru_Get c k")
  obtain c2 keep2 where s: "sweep c1 ids = (c2, keep2)" by (cases "sweep c1 ids")
  from Cons.prems g s have "c' = c2" "set keep \<subseteq> insert k (set keep2)"
    by (auto split: option.splits)
  with Cons.IH[OF s] shape_Get[OF g] show ?case by auto
qed

lemma set_token_shape:
  "length (Tokens (set_token i t c)) = length (Tokens c) \<and> cluster_id (set_token i t c) = cluster_id c"
  by (simp add: set_token_def)

lemma shape_replace_ids:
  "replace_ids c ids i r = Inr c' \<Longrightarrow> shape c' \<subseteq> shape c"
proof (induction ids arbitrary: c)
  case Nil
  then show ?case by simp
next
  case (Cons k ids)
  obtain c1 r1 where g: "lru_Get c k = (c1, r1)" by (cases "lru_Get c k")
  from Cons.prems g consider "replace_ids c1 ids i r = Inr c'"
    | "replace_ids (modify c1 k (set_token i r)) ids i r = Inr c'"
    by (auto split: option.splits if_splits)
  then show ?case
  proof cases
    case 1
    from Cons.IH[OF 1] shape_Get[OF g] show ?thesis by auto
  next
    case 2
    from Cons.IH[OF 2] shape_Get[OF g] shape_modify_same[of "set_token i r" c1 k] set_token_shape
    show ?thesis by auto
  qed
qed

lemma replace_ids_error: "replace_ids c ids i r \<noteq> Inl LengthMismatch"
proof (induction ids arbitrary: c)
  case Nil
  then show ?case by simp
next
  case (Cons k ids)
  then show ?case by (auto split: option.splits prod.splits)
qed

lemma subtree_ids_set:
  "set (subtree_ids n) = set (clusterIDs n) \<union> kids_ids (keyToChildNode n)"
  by (cases n) (simp add: kids_ids_def)

lemma subtree_ids_Node: "set (subtree_ids (Node kids ids)) = set ids \<union> kids_ids kids"
  by (simp add: kids_ids_def)

lemma kids_ids_mem: "(k, n) \<in> set kids \<Longrightarrow> set (subtree_ids n) \<subseteq> kids_ids kids"
  by (force simp: kids_ids_def)

lemma kids_ids_lookup: "map_of kids k = Some n \<Longrightarrow> set (subtree_ids n) \<subseteq> kids_ids kids"
  by (rule kids_ids_mem) (rule map_of_SomeD)

lemma set_update_subset: "set (AList.update k v al) \<subseteq> insert (k, v) (set al)"
  by (induction al) auto

lemma kids_ids_update: "kids_ids (AList.update k n kids) \<subseteq> kids_ids kids \<union> set (subtree_ids n)"
proof
  fix x assume "x \<in> kids_ids (AList.update k n kids)"
  then obtain e where e: "e \<in> set (AList.update k n kids)" "x \<in> set (subtree_ids (snd e))"
    by (auto simp: kids_ids_def)
  from e(1) set_update_subset have "e = (k, n) \<or> e \<in> set kids" by fastforce
  with e(2) show "x \<in> kids_ids kids \<union> set (subtree_ids n)"
    by (auto simp: kids_ids_def)
qed

lemma kids_ids_delete: "kids_ids (AList.delete k kids) \<subseteq> kids_ids kids"
  by (auto simp: kids_ids_def AList.delete_eq)

lemma createNode_ids: "set (subtree_ids createNode) = {}"
  by (simp add: createNode_def)

lemma addSeq_step_ids:
  assumes "addSeq_step E cfg cid token i kids cache = Inr (key, child, kids', cache')"
  shows "set (subtree_ids child) \<subseteq> kids_ids kids \<and> kids_ids kids' \<subseteq> kids_ids kids
    \<and> shape cache' \<subseteq> shape cache"
proof (cases "map_of kids token")
  case (Some ch)
  with assms have "child = ch" "kids' = kids" "cache' = cache"
    by (simp_all add: addSeq_step_def)
  with kids_ids_lookup[OF Some] show ?thesis by simp
next
  case None
  define p where "p = Preprocess E token"
  define ms where "ms = filter (\<lambda>key. Preprocess E key = p) (map fst kids)"
  define mk where "mk = (if ms = [] then [] else chosen E ms)"
  define cache1 where "cache1 = (if ms = [] then cache else modify cache cid (set_token i p))"
  have c1: "shape cache1 \<subseteq> shape cache"
    unfolding cache1_def using shape_modify_same[of "set_token i p" cache cid] set_token_shape
    by auto
  have up: "\<And>k. kids_ids (AList.update k createNode kids) \<subseteq> kids_ids kids"
    using kids_ids_update[of _ createNode kids] createNode_ids by auto
  show ?thesis
  proof (cases "mk = []")
    case True
    with assms None consider
        "child = createNode" "\<exists>k. kids' = AList.update k createNode kids" "cache' = cache1"
      | pnode where "map_of kids (ParamString cfg) = Some pnode" "child = pnode" "kids' = kids" "cache' = cache1"
      unfolding addSeq_step_def Let_def p_def[symmetric] ms_def[symmetric] mk_def[symmetric] cache1_def[symmetric]
      by (auto split: option.splits if_splits)
    then show ?thesis
    proof cases
      case 1
      with up c1 createNode_ids show ?thesis by auto
    next
      case 2
      with kids_ids_lookup[OF 2(1)] c1 show ?thesis by simp
    qed
  next
    case False
    with assms None obtain ch where ch: "map_of kids mk = Some ch" "child = ch"
      and r: "(kids' = kids \<and> cache' = cache1)
        \<or> (kids' = AList.delete mk (AList.update p ch kids) \<and> replaceAllTokens cache1 ch i p = Inr cache')"
      unfolding addSeq_step_def Let_def p_def[symmetric] ms_def[symmetric] mk_def[symmetric] cache1_def[symmetric]
      by (auto split: option.splits if_splits sum.splits)
    note chs = kids_ids_lookup[OF ch(1)]
    from r show ?thesis
    proof
      assume "kids' = kids \<and> cache' = cache1"
      with chs ch c1 show ?thesis by simp
    next
      assume a: "kids' = AList.delete mk (AList.update p ch kids) \<and> replaceAllTokens cache1 ch i p = Inr cache'"
      then have "shape cache' \<subseteq> shape cache1"
        unfolding replaceAllTokens_def by (auto dest: shape_replace_ids)
      moreover have "kids_ids kids' \<subseteq> kids_ids kids"
        using a kids_ids_delete[of mk "AList.update p ch kids"] kids_ids_update[of p ch kids] chs
        by auto
      ultimately show ?thesis using chs ch c1 by auto
    qed
  qed
qed

lemma addSeq_step_error: "addSeq_step E cfg cid token i kids cache \<noteq> Inl LengthMismatch"
  unfolding addSeq_step_def Let_def replaceAllTokens_def
  using replace_ids_error by (auto split: option.splits if_splits sum.splits)

lemma addSeq_loop_ids:
  "addSeq_loop E cfg cid tc tokens i depth node cache = Inr (node', cache') \<Longrightarrow>
     set (subtree_ids node') \<subseteq> insert cid (set (subtree_ids node)) \<and> shape cache' \<subseteq> shape cache"
proof (induction tokens arbitrary: i depth node cache node' cache')
  case Nil
  then show ?case by auto
next
  case (Cons token rest)
  show ?case
  proof (cases "maxNodeDepth cfg \<le> depth \<or> tc \<le> depth")
    case True
    obtain c1 keep where s: "sweep cache (clusterIDs node) = (c1, keep)"
      by (cases "sweep cache (clusterIDs node)")
    with Cons.prems True have "node' = Node (keyToChildNode node) (keep @ [cid])" "cache' = c1"
      by auto
    with shape_sweep[OF s] show ?thesis
      by (auto simp: subtree_ids_set[of node] subtree_ids_Node simp del: subtree_ids.simps)
  next
    case False
    with Cons.prems obtain key child kids' cache1 child' where
      st: "addSeq_step E cfg cid token i (keyToChildNode node) cache = Inr (key, child, kids', cache1)"
      and rc: "addSeq_loop E cfg cid tc rest (i + 1) (depth + 1) child cache1 = Inr (child', cache')"
      and n': "node' = Node (AList.update key child' kids') (clusterIDs node)"
      by (auto split: sum.splits prod.splits)
    note a = addSeq_step_ids[OF st]
    note b = Cons.IH[OF rc]
    have "kids_ids (AList.update key child' kids') \<subseteq> insert cid (kids_ids (keyToChildNode node))"
      using kids_ids_update[of key child' kids'] a b by blast
    with n' a b show ?thesis
      by (auto simp: subtree_ids_set[of node] subtree_ids_Node simp del: subtree_ids.simps)
  qed
qed

lemma addSeq_loop_error:
  "addSeq_loop E cfg cid tc tokens i depth node cache \<noteq> Inl LengthMismatch"
proof (induction tokens arbitrary: i depth node cache)
  case Nil
  then show ?case by simp
next
  case (Cons token rest)
  show ?case
    using addSeq_step_error[of E cfg cid token i "keyToChildNode node" cache] Cons.IH
    by (auto split: sum.splits prod.splits)
qed

lemma search_loop_ids:
  "search_loop E cfg tc rest i depth cur tokens = (Some leaf, tokens') \<Longrightarrow>
     set (subtree_ids leaf) \<subseteq> set (subtree_ids cur)"
proof (induction rest arbitrary: i depth cur tokens)
  case Nil
  then show ?case by simp
next
  case (Cons token rest)
  from Cons.prems consider "leaf = cur"
    | key nxt t2 where "map_of (keyToChildNode cur) key = Some nxt"
        "search_loop E cfg tc rest (i + 1) (depth + 1) nxt t2 = (Some leaf, tokens')"
    by (auto simp: Let_def split: if_splits option.splits)
  then show ?case
  proof cases
    case 1
    then show ?thesis by simp
  next
    case 2
    from Cons.IH[OF 2(2)] kids_ids_lookup[OF 2(1)] show ?thesis
      by (auto simp: subtree_ids_set[of cur])
  qed
qed

lemma getSeqDistance_Inr:
  "length a = length b \<Longrightarrow> \<exists>S P. getSeqDistance cfg a b inc = Inr (S, P)"
  by (auto simp: getSeqDistance_def split: option.splits)

lemma getSeqDistance_error: "getSeqDistance cfg a b inc = Inl e \<Longrightarrow> length a \<noteq> length b"
  by (auto simp: getSeqDistance_def split: option.splits if_splits)

lemma fastMatch_loop_ok:
  assumes "\<forall>e \<in> shape cache. fst e \<in> set ids \<longrightarrow> fst (snd e) = length tokens"
  shows "\<exists>cache' S' P' C'. fastMatch_loop cfg ids tokens inc (cache, S, P, C) = Inr (cache', S', P', C')
    \<and> shape cache' \<subseteq> shape cache
    \<and> (\<forall>c. C' = Some c \<longrightarrow> C = Some c
          \<or> (\<exists>k \<in> set ids. (k, length (Tokens c), cluster_id c) \<in> shape cache))"
  using assms
proof (induction ids arbitrary: cache S P C)
  case Nil
  then show ?case by simp
next
  case (Cons k ids)
  obtain c1 r where g: "lru_Get cache k = (c1, r)" by (cases "lru_Get cache k")
  note sg = shape_Get[OF g]
  have h: "\<forall>e \<in> shape c1. fst e \<in> set ids \<longrightarrow> fst (snd e) = length tokens"
    using Cons.prems sg by auto
  show ?case
  proof (cases r)
    case None
    from Cons.IH[OF h, of S P C] obtain cache' S' P' C' where
      l: "fastMatch_loop cfg ids tokens inc (c1, S, P, C) = Inr (cache', S', P', C')"
      and s: "shape cache' \<subseteq> shape c1"
      and c: "\<forall>c. C' = Some c \<longrightarrow> C = Some c \<or> (\<exists>k \<in> set ids. (k, length (Tokens c), cluster_id c) \<in> shape c1)"
      by blast
    have "fastMatch_loop cfg (k # ids) tokens inc (cache, S, P, C) = Inr (cache', S', P', C')"
      using g None l by simp
    moreover have "shape cache' \<subseteq> shape cache" using s sg by blast
    moreover have "\<forall>c. C' = Some c \<longrightarrow> C = Some c
        \<or> (\<exists>k' \<in> set (k # ids). (k', length (Tokens c), cluster_id c) \<in> shape cache)"
      using c sg by fastforce
    ultimately show ?thesis by blast
  next
    case (Some cl)
    from Get_Some_shape[OF g[unfolded Some]] have ksh: "(k, length (Tokens cl), cluster_id cl) \<in> shape cache" .
    with Cons.prems have "length (Tokens cl) = length tokens" by fastforce
    from getSeqDistance_Inr[OF this] obtain cs cp where
      gd: "getSeqDistance cfg (Tokens cl) tokens inc = Inr (cs, cp)" by blast
    define S1 where "S1 = (if cp < 0 then S else if fgt cs S \<or> (feq cs S \<and> P < cp) then cs else S)"
    define P1 where "P1 = (if cp < 0 then P else if fgt cs S \<or> (feq cs S \<and> P < cp) then cp else P)"
    define C1 where "C1 = (if cp < 0 then C else if fgt cs S \<or> (feq cs S \<and> P < cp) then Some cl else C)"
    have unf: "fastMatch_loop cfg (k # ids) tokens inc (cache, S, P, C)
        = fastMatch_loop cfg ids tokens inc (c1, S1, P1, C1)"
      using g Some gd by (simp add: S1_def P1_def C1_def)
    from Cons.IH[OF h, of S1 P1 C1] obtain cache' S' P' C' where
      l: "fastMatch_loop cfg ids tokens inc (c1, S1, P1, C1) = Inr (cache', S', P', C')"
      and s: "shape cache' \<subseteq> shape c1"
      and c: "\<forall>c. C' = Some c \<longrightarrow> C1 = Some c \<or> (\<exists>k \<in> set ids. (k, length (Tokens c), cluster_id c) \<in> shape c1)"
      by blast
    have "shape cache' \<subseteq> shape cache" using s sg by blast
    moreover have "\<forall>c. C' = Some c \<longrightarrow> C = Some c
        \<or> (\<exists>k' \<in> set (k # ids). (k', length (Tokens c), cluster_id c) \<in> shape cache)"
    proof (intro allI impI)
      fix c' assume "C' = Some c'"
      with c have "C1 = Some c' \<or> (\<exists>k \<in> set ids. (k, length (Tokens c'), cluster_id c') \<in> shape c1)"
        by blast
      then show "C = Some c' \<or> (\<exists>k' \<in> set (k # ids). (k', length (Tokens c'), cluster_id c') \<in> shape cache)"
      proof
        assume "C1 = Some c'"
        then have "C = Some c' \<or> c' = cl" by (auto simp: C1_def split: if_splits)
        with ksh show ?thesis by auto
      next
        assume "\<exists>k \<in> set ids. (k, length (Tokens c'), cluster_id c') \<in> shape c1"
        with sg show ?thesis by fastforce
      qed
    qed
    ultimately show ?thesis using unf l by auto
  qed
qed

lemma fastMatch_ok:
  assumes "\<forall>e \<in> shape cache. fst e \<in> set ids \<longrightarrow> fst (snd e) = length tokens"
  shows "\<exists>cache' r. fastMatch cfg cache ids tokens simTh inc = Inr (cache', r)
    \<and> shape cache' \<subseteq> shape cache
    \<and> (\<forall>c. r = Some c \<longrightarrow> (\<exists>k \<in> set ids. (k, length (Tokens c), cluster_id c) \<in> shape cache))"
proof -
  from fastMatch_loop_ok[OF assms, of cfg inc "Fin (- 1)" "- 1" None]
  obtain cache' S' P' C' where
    l: "fastMatch_loop cfg ids tokens inc (cache, Fin (- 1), - 1, None) = Inr (cache', S', P', C')"
    and s: "shape cache' \<subseteq> shape cache"
    and c: "\<forall>c. C' = Some c \<longrightarrow> (\<exists>k \<in> set ids. (k, length (Tokens c), cluster_id c) \<in> shape cache)"
    by auto
  show ?thesis using l s c by (auto simp: fastMatch_def)
qed

lemma treeSearch_ok:
  assumes "buckets_ok rootN cache"
  shows "\<exists>tokens' cache' r. treeSearch E cfg cache rootN tokens simTh inc = Inr (tokens', cache', r)
      \<and> shape cache' \<subseteq> shape cache \<and> length tokens' = length tokens
      \<and> (\<forall>c. r = Some c \<longrightarrow> (\<exists>k. (k, length tokens, cluster_id c) \<in> shape cache)
            \<and> length (Tokens c) = length tokens)
    \<or> treeSearch E cfg cache rootN tokens simTh inc = Inl IndexOutOfRange"
proof (cases "map_of (keyToChildNode rootN) (Itoa (length tokens))")
  case None
  then show ?thesis by (simp add: treeSearch_def)
next
  case (Some bucket)
  then have mem: "(Itoa (length tokens), bucket) \<in> set (keyToChildNode rootN)"
    by (rule map_of_SomeD)
  have bk: "\<And>k e. k \<in> set (subtree_ids bucket) \<Longrightarrow> e \<in> shape cache \<Longrightarrow> fst e = k
      \<Longrightarrow> fst (snd e) = length tokens"
  proof -
    fix k e assume "k \<in> set (subtree_ids bucket)" "e \<in> shape cache" "fst e = k"
    with assms mem have "Itoa (fst (snd e)) = Itoa (length tokens)"
      unfolding buckets_ok_def by fastforce
    then show "fst (snd e) = length tokens" by (rule Itoa_inj)
  qed
  show ?thesis
  proof (cases "length tokens < 2")
    case True
    show ?thesis
    proof (cases "clusterIDs bucket")
      case Nil
      with Some True show ?thesis by (simp add: treeSearch_def)
    next
      case (Cons first others)
      obtain c1 r where g: "lru_Get cache first = (c1, r)" by (cases "lru_Get cache first")
      have ts: "treeSearch E cfg cache rootN tokens simTh inc = Inr (tokens, c1, r)"
        using Some True Cons g by (simp add: treeSearch_def)
      have fm: "first \<in> set (subtree_ids bucket)"
        using Cons by (simp add: subtree_ids_set[of bucket])
      have "\<forall>c. r = Some c \<longrightarrow> (\<exists>k. (k, length tokens, cluster_id c) \<in> shape cache)
            \<and> length (Tokens c) = length tokens"
      proof (intro allI impI)
        fix c assume "r = Some c"
        with g have sh: "(first, length (Tokens c), cluster_id c) \<in> shape cache"
          by (simp add: Get_Some_shape)
        from bk[OF fm sh] have "length (Tokens c) = length tokens" by simp
        with sh show "(\<exists>k. (k, length tokens, cluster_id c) \<in> shape cache)
            \<and> length (Tokens c) = length tokens" by auto
      qed
      with ts shape_Get[OF g] show ?thesis by simp
    qed
  next
    case False
    obtain leafo tokens' where sl:
      "search_loop E cfg (int (length tokens)) tokens 0 1 bucket tokens = (leafo, tokens')"
      by (cases "search_loop E cfg (int (length tokens)) tokens 0 1 bucket tokens")
    from search_loop_tokens[OF sl, of tokens] have len: "length tokens' = length tokens" by simp
    show ?thesis
    proof (cases leafo)
      case None
      with Some False sl len show ?thesis by (simp add: treeSearch_def)
    next
      case (Some leaf)
      from search_loop_ids[OF sl[unfolded Some]] have sub: "set (clusterIDs leaf) \<subseteq> set (subtree_ids bucket)"
        by (auto simp: subtree_ids_set[of leaf])
      have "\<forall>e \<in> shape cache. fst e \<in> set (clusterIDs leaf) \<longrightarrow> fst (snd e) = length tokens'"
        using bk sub len by auto
      from fastMatch_ok[OF this, of cfg simTh inc] obtain cache' r where
        fm: "fastMatch cfg cache (clusterIDs leaf) tokens' simTh inc = Inr (cache', r)"
        and s: "shape cache' \<subseteq> shape cache"
        and c: "\<forall>c. r = Some c \<longrightarrow> (\<exists>k \<in> set (clusterIDs leaf). (k, length (Tokens c), cluster_id c) \<in> shape cache)"
        by blast
      have ts: "treeSearch E cfg cache rootN tokens simTh inc = Inr (tokens', cache', r)"
        using \<open>map_of (keyToChildNode rootN) (Itoa (length tokens)) = Some bucket\<close> False sl Some fm
        by (simp add: treeSearch_def)
      have "\<forall>c. r = Some c \<longrightarrow> (\<exists>k. (k, length tokens, cluster_id c) \<in> shape cache)
            \<and> length (Tokens c) = length tokens"
      proof (intro allI impI)
        fix cl assume "r = Some cl"
        with c obtain k where k: "k \<in> set (clusterIDs leaf)" "(k, length (Tokens cl), cluster_id cl) \<in> shape cache"
          by blast
        from bk[OF _ k(2)] k(1) sub have "length (Tokens cl) = length tokens" by auto
        with k(2) show "(\<exists>k. (k, length tokens, cluster_id cl) \<in> shape cache)
            \<and> length (Tokens cl) = length tokens" by auto
      qed
      with ts s len show ?thesis by simp
    qed
  qed
qed

lemma bucket_inv_buckets_ok: "bucket_inv d \<Longrightarrow> buckets_ok (rootNode d) (idToCluster d)"
  unfolding bucket_inv_def buckets_ok_def by blast

lemma bucket_inv_shrink:
  assumes "bucket_inv d" "shape cache' \<subseteq> shape (idToCluster d)"
  shows "bucket_inv (d\<lparr>idToCluster := cache'\<rparr>)"
  using assms unfolding bucket_inv_def by simp blast

lemma addSeqToPrefixTree_ids:
  assumes "addSeqToPrefixTree E cfg cache rootN cid tokens = Inr (rootN', cache')"
  shows "\<exists>b'. rootN' = Node (AList.update (Itoa (length tokens)) b' (keyToChildNode rootN)) (clusterIDs rootN)
      \<and> set (subtree_ids b') \<subseteq> insert cid
            (\<Union>kb \<in> set (keyToChildNode rootN). if fst kb = Itoa (length tokens) then set (subtree_ids (snd kb)) else {})
      \<and> shape cache' \<subseteq> shape cache"
proof -
  let ?key = "Itoa (length tokens)"
  define b0 where "b0 = (case map_of (keyToChildNode rootN) ?key of Some n \<Rightarrow> n | None \<Rightarrow> createNode)"
  have b0: "set (subtree_ids b0) \<subseteq>
      (\<Union>kb \<in> set (keyToChildNode rootN). if fst kb = ?key then set (subtree_ids (snd kb)) else {})"
  proof (cases "map_of (keyToChildNode rootN) ?key")
    case None
    then show ?thesis by (simp add: b0_def createNode_def)
  next
    case (Some n)
    then have "(?key, n) \<in> set (keyToChildNode rootN)" by (rule map_of_SomeD)
    then show ?thesis using Some by (force simp: b0_def)
  qed
  show ?thesis
  proof (cases "length tokens = 0")
    case True
    with assms have "rootN' = Node (AList.update ?key (Node (keyToChildNode b0) (clusterIDs b0 @ [cid]))
        (keyToChildNode rootN)) (clusterIDs rootN)" "cache' = cache"
      by (simp_all add: addSeqToPrefixTree_def b0_def Let_def)
    moreover have "set (subtree_ids (Node (keyToChildNode b0) (clusterIDs b0 @ [cid])))
        \<subseteq> insert cid (set (subtree_ids b0))"
      by (auto simp: subtree_ids_set[of b0] subtree_ids_Node simp del: subtree_ids.simps)
    ultimately show ?thesis using b0 by blast
  next
    case False
    with assms obtain n' where
      l: "addSeq_loop E cfg cid (int (length tokens)) tokens 0 1 b0 cache = Inr (n', cache')"
      and r: "rootN' = Node (AList.update ?key n' (keyToChildNode rootN)) (clusterIDs rootN)"
      by (auto simp: addSeqToPrefixTree_def b0_def Let_def split: sum.splits)
    from addSeq_loop_ids[OF l] b0 r show ?thesis by blast
  qed
qed

lemma addSeqToPrefixTree_error:
  "addSeqToPrefixTree E cfg cache rootN cid tokens \<noteq> Inl LengthMismatch"
  using addSeq_loop_error
  by (auto simp: addSeqToPrefixTree_def Let_def split: sum.splits)

lemma createTemplate_Inr:
  "length a = length b \<Longrightarrow> \<exists>t. createTemplate cfg a b = Inr t \<and> length t = length a"
  by (simp add: createTemplate_def)

lemma learn_inv:
  assumes inv: "bucket_inv d"
    and touch: "\<And>c. length (Tokens (touch c)) = length (Tokens c) \<and> cluster_id (touch c) = cluster_id c"
  shows "learn E d tokens size0 touch \<noteq> Inl LengthMismatch
    \<and> (\<forall>d' c. learn E d tokens size0 touch = Inr (d', c) \<longrightarrow> bucket_inv d')"
proof -
  let ?cfg = "config d" and ?cache = "idToCluster d" and ?root = "rootNode d"
  have "(\<exists>tokens' cache' r. treeSearch E ?cfg ?cache ?root tokens (SimTh ?cfg) False = Inr (tokens', cache', r)
      \<and> shape cache' \<subseteq> shape ?cache \<and> length tokens' = length tokens
      \<and> (\<forall>c. r = Some c \<longrightarrow> (\<exists>k. (k, length tokens, cluster_id c) \<in> shape ?cache)
            \<and> length (Tokens c) = length tokens))
    \<or> treeSearch E ?cfg ?cache ?root tokens (SimTh ?cfg) False = Inl IndexOutOfRange"
    using treeSearch_ok[OF bucket_inv_buckets_ok[OF inv], of E ?cfg tokens "SimTh ?cfg" False] by blast
  then show ?thesis
  proof
    assume "treeSearch E ?cfg ?cache ?root tokens (SimTh ?cfg) False = Inl IndexOutOfRange"
    then show ?thesis by (simp add: learn_def)
  next
    assume "\<exists>tokens' cache' r. treeSearch E ?cfg ?cache ?root tokens (SimTh ?cfg) False = Inr (tokens', cache', r)
      \<and> shape cache' \<subseteq> shape ?cache \<and> length tokens' = length tokens
      \<and> (\<forall>c. r = Some c \<longrightarrow> (\<exists>k. (k, length tokens, cluster_id c) \<in> shape ?cache)
            \<and> length (Tokens c) = length tokens)"
    then obtain tokens' cache1 r where
      ts: "treeSearch E ?cfg ?cache ?root tokens (SimTh ?cfg) False = Inr (tokens', cache1, r)"
      and s1: "shape cache1 \<subseteq> shape ?cache" and len: "length tokens' = length tokens"
      and rc: "\<forall>c. r = Some c \<longrightarrow> (\<exists>k. (k, length tokens, cluster_id c) \<in> shape ?cache)
            \<and> length (Tokens c) = length tokens"
      by blast
    from inv have A: "\<And>e. e \<in> shape ?cache \<Longrightarrow> fst e \<le> clustersCounter d \<and> snd (snd e) = fst e"
      and B: "\<And>kb k. kb \<in> set (keyToChildNode ?root) \<Longrightarrow> k \<in> set (subtree_ids (snd kb)) \<Longrightarrow>
          k \<le> clustersCounter d \<and> (\<forall>e \<in> shape ?cache. fst e = k \<longrightarrow> Itoa (fst (snd e)) = fst kb)"
      unfolding bucket_inv_def by blast+
    show ?thesis
    proof (cases r)
      case None
      define cid where "cid = clustersCounter d + 1"
      define mc where "mc = touch \<lparr>Tokens = tokens', cluster_id = cid, Size = size0\<rparr>"
      define cache2 where "cache2 = lru_Set cache1 cid mc"
      have s2: "shape cache2 \<subseteq> insert (cid, length tokens', cid) (shape ?cache)"
        using shape_Set[of cache1 cid mc] touch s1 unfolding cache2_def mc_def by auto
      have unf: "learn E d tokens size0 touch =
          (case addSeqToPrefixTree E ?cfg cache2 ?root cid tokens' of
             Inl e \<Rightarrow> Inl e
           | Inr (rootN', cache3) \<Rightarrow>
               Inr (d\<lparr>rootNode := rootN', idToCluster := cache3, clustersCounter := cid\<rparr>,
                    (case lru_Peek cache3 cid of Some c \<Rightarrow> c | None \<Rightarrow> mc)))"
        unfolding learn_def Let_def cid_def mc_def cache2_def using ts None by simp
      have "\<forall>d' c. learn E d tokens size0 touch = Inr (d', c) \<longrightarrow> bucket_inv d'"
      proof (intro allI impI)
        fix d' c assume l: "learn E d tokens size0 touch = Inr (d', c)"
        with unf obtain rootN' cache3 where
          a: "addSeqToPrefixTree E ?cfg cache2 ?root cid tokens' = Inr (rootN', cache3)"
          and d': "d' = d\<lparr>rootNode := rootN', idToCluster := cache3, clustersCounter := cid\<rparr>"
          by (auto split: sum.splits)
        from addSeqToPrefixTree_ids[OF a] obtain b' where
          r': "rootN' = Node (AList.update (Itoa (length tokens')) b' (keyToChildNode ?root)) (clusterIDs ?root)"
          and bs: "set (subtree_ids b') \<subseteq> insert cid
            (\<Union>kb \<in> set (keyToChildNode ?root). if fst kb = Itoa (length tokens') then set (subtree_ids (snd kb)) else {})"
          and s3: "shape cache3 \<subseteq> shape cache2"
          by blast
        have sh: "\<And>e. e \<in> shape cache3 \<Longrightarrow> e = (cid, length tokens', cid) \<or> e \<in> shape ?cache"
          using s3 s2 by blast
        have A': "\<forall>e \<in> shape cache3. fst e \<le> cid \<and> snd (snd e) = fst e"
        proof
          fix e assume "e \<in> shape cache3"
          from sh[OF this] A[of e] show "fst e \<le> cid \<and> snd (snd e) = fst e"
            by (auto simp: cid_def)
        qed
        have old: "\<And>k e kb. kb \<in> set (keyToChildNode ?root) \<Longrightarrow> k \<in> set (subtree_ids (snd kb))
            \<Longrightarrow> e \<in> shape cache3 \<Longrightarrow> fst e = k \<Longrightarrow> Itoa (fst (snd e)) = fst kb"
        proof -
          fix k e kb assume h: "kb \<in> set (keyToChildNode ?root)" "k \<in> set (subtree_ids (snd kb))"
            "e \<in> shape cache3" "fst e = k"
          from B[OF h(1,2)] have k: "k \<le> clustersCounter d"
            and i: "\<forall>e \<in> shape ?cache. fst e = k \<longrightarrow> Itoa (fst (snd e)) = fst kb" by auto
          from sh[OF h(3)] h(4) k have "e \<in> shape ?cache" by (auto simp: cid_def)
          with i h(4) show "Itoa (fst (snd e)) = fst kb" by blast
        qed
        have B': "\<forall>kb \<in> set (keyToChildNode rootN'). \<forall>k \<in> set (subtree_ids (snd kb)).
            k \<le> cid \<and> (\<forall>e \<in> shape cache3. fst e = k \<longrightarrow> Itoa (fst (snd e)) = fst kb)"
        proof (intro ballI)
          fix kb k assume kb: "kb \<in> set (keyToChildNode rootN')" and k: "k \<in> set (subtree_ids (snd kb))"
          from kb r' set_update_subset
          have "kb = (Itoa (length tokens'), b') \<or> kb \<in> set (keyToChildNode ?root)" by fastforce
          then show "k \<le> cid \<and> (\<forall>e \<in> shape cache3. fst e = k \<longrightarrow> Itoa (fst (snd e)) = fst kb)"
          proof
            assume o: "kb \<in> set (keyToChildNode ?root)"
            from B[OF o k] old[OF o k] show ?thesis by (auto simp: cid_def)
          next
            assume n: "kb = (Itoa (length tokens'), b')"
            with k bs have "k = cid \<or> (\<exists>kb' \<in> set (keyToChildNode ?root).
                fst kb' = Itoa (length tokens') \<and> k \<in> set (subtree_ids (snd kb')))"
              by (auto split: if_splits)
            then show ?thesis
            proof
              assume kc: "k = cid"
              have "\<forall>e \<in> shape cache3. fst e = k \<longrightarrow> Itoa (fst (snd e)) = fst kb"
              proof (intro ballI impI)
                fix e assume e: "e \<in> shape cache3" "fst e = k"
                from sh[OF e(1)] e(2) kc A[of e] have "e = (cid, length tokens', cid)"
                  by (auto simp: cid_def)
                with n show "Itoa (fst (snd e)) = fst kb" by simp
              qed
              with kc show ?thesis by simp
            next
              assume "\<exists>kb' \<in> set (keyToChildNode ?root).
                fst kb' = Itoa (length tokens') \<and> k \<in> set (subtree_ids (snd kb'))"
              then obtain kb' where kb': "kb' \<in> set (keyToChildNode ?root)"
                "fst kb' = Itoa (length tokens')" "k \<in> set (subtree_ids (snd kb'))" by blast
              from B[OF kb'(1,3)] old[OF kb'(1,3)] kb'(2) n show ?thesis by (auto simp: cid_def)
            qed
          qed
        qed
        from A' B' show "bucket_inv d'" unfolding bucket_inv_def d' by simp
      qed
      moreover have "learn E d tokens size0 touch \<noteq> Inl LengthMismatch"
        using unf addSeqToPrefixTree_error[of E ?cfg cache2 ?root cid tokens']
        by (auto split: sum.splits)
      ultimately show ?thesis by blast
    next
      case (Some mc)
      with rc obtain k where k: "(k, length tokens, cluster_id mc) \<in> shape ?cache"
        and lm: "length (Tokens mc) = length tokens" by blast
      from A[OF k] have kid: "cluster_id mc = k" by simp
      from createTemplate_Inr[of tokens' "Tokens mc" ?cfg] len lm obtain newT where
        ct: "createTemplate ?cfg tokens' (Tokens mc) = Inr newT" and ln: "length newT = length tokens"
        by auto
      define upd where "upd = (\<lambda>c. touch (c\<lparr>Tokens := newT\<rparr>))"
      define cache2 where "cache2 = modify cache1 (cluster_id mc) upd"
      have unf: "learn E d tokens size0 touch =
          Inr (d\<lparr>idToCluster := fst (lru_Get cache2 (cluster_id mc))\<rparr>, upd mc)"
        unfolding learn_def Let_def upd_def cache2_def using ts Some ct by simp
      have s2: "shape cache2 \<subseteq> shape ?cache"
      proof
        fix e assume "e \<in> shape cache2"
        from shape_modify[OF this[unfolded cache2_def]]
        show "e \<in> shape ?cache"
        proof
          assume "e \<in> shape cache1" with s1 show ?thesis by blast
        next
          assume "\<exists>cl. (cluster_id mc, cl) \<in> set (items cache1)
              \<and> e = (cluster_id mc, length (Tokens (upd cl)), cluster_id (upd cl))"
          then obtain cl where cl: "(cluster_id mc, cl) \<in> set (items cache1)"
            "e = (cluster_id mc, length (Tokens (upd cl)), cluster_id (upd cl))" by blast
          from cl(1) have "(\<lambda>e. (fst e, length (Tokens (snd e)), cluster_id (snd e))) (cluster_id mc, cl)
              \<in> shape cache1" unfolding shape_def by (rule imageI)
          with s1 have "(cluster_id mc, length (Tokens cl), cluster_id cl) \<in> shape ?cache" by auto
          from A[OF this] have "cluster_id cl = cluster_id mc" by simp
          with cl(2) touch ln kid have "e = (k, length tokens, cluster_id mc)"
            by (simp add: upd_def)
          with k show ?thesis by simp
        qed
      qed
      obtain c3 r3 where g: "lru_Get cache2 (cluster_id mc) = (c3, r3)"
        by (cases "lru_Get cache2 (cluster_id mc)")
      from shape_Get[OF g] s2 have "shape c3 \<subseteq> shape ?cache" by blast
      from bucket_inv_shrink[OF inv this] unf g show ?thesis by simp
    qed
  qed
qed

lemma PatternString_shape:
  "length (Tokens (snd (PatternString cfg c))) = length (Tokens c)
   \<and> cluster_id (snd (PatternString cfg c)) = cluster_id c"
  using dedup_spec_length[of "ParamString cfg" "Tokens c"]
  by (simp add: PatternString_def dedup_arr_eq Let_def)

lemma append_sample_shape:
  "length (Tokens (append_sample c)) = length (Tokens c) \<and> cluster_id (append_sample c) = cluster_id c"
  by (simp add: append_sample_def)

lemma MatchTokens_inv:
  assumes "bucket_inv d"
  shows "MatchTokens E d tokens \<noteq> Inl LengthMismatch
    \<and> (\<forall>d' t r. MatchTokens E d tokens = Inr (d', t, r) \<longrightarrow> bucket_inv d')"
proof -
  have "(\<exists>tokens' cache' r. treeSearch E (config d) (idToCluster d) (rootNode d) tokens (Fin 1) True
          = Inr (tokens', cache', r) \<and> shape cache' \<subseteq> shape (idToCluster d))
    \<or> treeSearch E (config d) (idToCluster d) (rootNode d) tokens (Fin 1) True = Inl IndexOutOfRange"
    using treeSearch_ok[OF bucket_inv_buckets_ok[OF assms], of E "config d" tokens "Fin 1" True] by blast
  then show ?thesis
  proof
    assume "\<exists>tokens' cache' r. treeSearch E (config d) (idToCluster d) (rootNode d) tokens (Fin 1) True
          = Inr (tokens', cache', r) \<and> shape cache' \<subseteq> shape (idToCluster d)"
    then obtain tokens' cache' r where
      "treeSearch E (config d) (idToCluster d) (rootNode d) tokens (Fin 1) True = Inr (tokens', cache', r)"
      "shape cache' \<subseteq> shape (idToCluster d)" by blast
    with bucket_inv_shrink[OF assms this(2)] show ?thesis by (simp add: MatchTokens_def)
  next
    assume "treeSearch E (config d) (idToCluster d) (rootNode d) tokens (Fin 1) True = Inl IndexOutOfRange"
    then show ?thesis by (simp add: MatchTokens_def)
  qed
qed

lemma step_inv:
  assumes "bucket_inv d"
  shows "step E d op \<noteq> Inl LengthMismatch \<and> (\<forall>d'. step E d op = Inr d' \<longrightarrow> bucket_inv d')"
proof (cases op)
  case (OpTrain content)
  from learn_inv[OF assms append_sample_shape, of E "map (clip (config d)) (Marshal E content)" 1]
  show ?thesis
    by (cases "learn E d (map (clip (config d)) (Marshal E content)) 1 append_sample")
      (auto simp: OpTrain Train_def train_def)
next
  case (OpTrainTokens tokens)
  from learn_inv[OF assms append_sample_shape, of E "map (clip (config d)) tokens" 1]
  show ?thesis
    by (cases "learn E d (map (clip (config d)) tokens) 1 append_sample")
      (auto simp: OpTrainTokens TrainTokens_def train_def)
next
  case (OpTrainPattern content)
  from learn_inv[OF assms, of "\<lambda>c. c" E "tokenizePattern content (ParamString (config d))" 0]
  show ?thesis
    by (cases "learn E d (tokenizePattern content (ParamString (config d))) 0 (\<lambda>c. c)")
      (auto simp: OpTrainPattern TrainPattern_def)
next
  case (OpMatch content)
  from MatchTokens_inv[OF assms, of E "getContentAsTokens (config d) content"]
  show ?thesis
    by (cases "MatchTokens E d (getContentAsTokens (config d) content)")
      (auto simp: OpMatch Match_def)
next
  case (OpMatchTokens tokens)
  from MatchTokens_inv[OF assms, of E tokens]
  show ?thesis
    by (cases "MatchTokens E d tokens") (auto simp: OpMatchTokens)
next
  case (OpDelete cid)
  from bucket_inv_shrink[OF assms shape_Remove[of "idToCluster d" cid]]
  show ?thesis by (simp add: OpDelete Delete_def)
next
  case (OpPatternString cid)
  from bucket_inv_shrink[OF assms
      shape_modify_same[of "\<lambda>c. snd (PatternString (config d) c)" "idToCluster d" cid]]
    PatternString_shape
  show ?thesis by (simp add: OpPatternString PatternString_of_def)
qed

lemma run_inv: "bucket_inv d \<Longrightarrow> run E d ops \<noteq> Inl LengthMismatch"
proof (induction ops arbitrary: d)
  case Nil
  then show ?case by simp
next
  case (Cons op ops)
  from step_inv[OF Cons.prems, of E op] Cons.IH show ?case
    by (cases "step E d op") auto
qed

lemma New_inv: "New cfg = Inr d \<Longrightarrow> bucket_inv d"
  by (auto simp: New_def bucket_inv_def shape_def createLogClusterCache_def createNode_def
      split: if_splits)

text \<open>
  Claim C9. No sequence of public operations on a fresh engine ends in the panic of
  \<^verbatim>\<open>getSeqDistance\<close> or \<^verbatim>\<open>createTemplate\<close>: whenever they are called the two token
  sequences have the same length, because a cluster of N tokens is only reachable under
  the bucket of N and a query only searches the bucket of its own length.
\<close>

theorem no_length_mismatch_panic: "run_new E cfg ops \<noteq> Inl LengthMismatch"
proof (cases "New cfg")
  case (Inl e)
  then show ?thesis by (auto simp: run_new_def New_def split: if_splits)
next
  case (Inr d)
  with run_inv[OF New_inv[OF Inr], of E ops] show ?thesis by (simp add: run_new_def)
qed

theorem no_length_mismatch_panic_witness:
  "run_new plain_env DefaultConfig
     [OpTrain ''a b c'', OpTrainPattern ''a <_> <_> c'', OpMatch ''a b'', OpPatternString 1, OpDelete 1,
      OpTrainTokens [''a'', ''b'', ''d'']] \<noteq> Inl LengthMismatch"
  using no_length_mismatch_panic[of plain_env DefaultConfig
     "[OpTrain ''a b c'', OpTrainPattern ''a <_> <_> c'', OpMatch ''a b'', OpPatternString 1, OpDelete 1,
      OpTrainTokens [''a'', ''b'', ''d'']]"] .

section \<open>Bounded fan-out\<close>

lemma fanout_ok_kids: "fanout_ok cfg n \<longleftrightarrow> kids_ok cfg (keyToChildNode n)"
  by (cases n) (simp add: kids_ok_def list_all_iff)

lemma createNode_ok: "fanout_ok cfg createNode"
  by (simp add: createNode_def)

lemma chosen_mem: "ms \<noteq> [] \<Longrightarrow> chosen E ms \<in> set ms"
  by (simp add: chosen_def)

lemma length_update_new:
  "map_of al k = None \<Longrightarrow> length (AList.update k v al) = Suc (length al)"
  by (induction al) (auto split: if_splits)

lemma keys_update_new:
  "set (map fst (AList.update k v al)) = insert k (set (map fst al))"
  using AList.dom_update[of k v al] by auto

lemma kids_ok_add:
  assumes ok: "kids_ok cfg kids" and new: "map_of kids k = None"
    and bound: "int (length kids) + 1 \<le> MaxChildren cfg"
    and full: "int (length kids) + 1 = MaxChildren cfg \<longrightarrow> k = ParamString cfg \<or> ParamString cfg \<in> set (map fst kids)"
  shows "kids_ok cfg (AList.update k createNode kids)"
proof -
  have d: "distinct (map fst (AList.update k createNode kids))"
    using ok by (simp add: kids_ok_def AList.distinct_update)
  have l: "int (length (AList.update k createNode kids)) = int (length kids) + 1"
    using length_update_new[OF new] by simp
  have c: "\<forall>e \<in> set (AList.update k createNode kids). fanout_ok cfg (snd e)"
  proof
    fix e assume "e \<in> set (AList.update k createNode kids)"
    with set_update_subset have "e = (k, createNode) \<or> e \<in> set kids" by fastforce
    with ok createNode_ok show "fanout_ok cfg (snd e)" by (auto simp: kids_ok_def)
  qed
  from d l c bound full show ?thesis
    unfolding kids_ok_def keys_update_new by auto
qed

lemma kids_ok_rename:
  assumes ok: "kids_ok cfg kids" and mk: "map_of kids mk = Some ch" and ne: "mk \<noteq> p"
    and par: "mk \<noteq> ParamString cfg"
  shows "kids_ok cfg (AList.delete mk (AList.update p ch kids))
    \<and> map_of (AList.delete mk (AList.update p ch kids)) p = Some ch"
proof -
  let ?u = "AList.update p ch kids" and ?r = "AList.delete mk (AList.update p ch kids)"
  from ok have dk: "distinct (map fst kids)" by (simp add: kids_ok_def)
  have du: "distinct (map fst ?u)" using dk by (rule AList.distinct_update)
  have d: "distinct (map fst ?r)" using du by (rule AList.distinct_delete)
  from mk have mem: "mk \<in> set (map fst kids)" by (metis domI dom_map_of_conv_image_fst set_map)
  have keys: "set (map fst ?r) = insert p (set (map fst kids)) - {mk}"
    by (simp add: AList.delete_keys AList.dom_update)
  have lu: "length ?u \<le> Suc (length kids)"
    by (induction kids) auto
  have "length (map fst ?r) = card (set (map fst ?r))"
    using distinct_card[OF d] by simp
  also have "\<dots> = card (insert p (set (map fst kids)) - {mk})" using keys by simp
  also have "\<dots> \<le> card (set (map fst kids))"
    using mem by (simp add: card_insert_if card_Diff_singleton_if)
  also have "\<dots> = length kids" using dk by (metis distinct_card length_map)
  finally have len: "length ?r \<le> length kids" by simp
  have ne': "kids \<noteq> []" using mk by auto
  have ch: "fanout_ok cfg ch"
    using ok map_of_SomeD[OF mk] by (auto simp: kids_ok_def)
  have c: "\<forall>e \<in> set ?r. fanout_ok cfg (snd e)"
  proof
    fix e assume "e \<in> set ?r"
    then have "e \<in> set ?u" by (auto simp: AList.delete_eq)
    with set_update_subset have "e = (p, ch) \<or> e \<in> set kids" by fastforce
    with ok ch show "fanout_ok cfg (snd e)" by (auto simp: kids_ok_def)
  qed
  have b: "?r \<noteq> [] \<longrightarrow> int (length ?r) \<le> MaxChildren cfg
      \<and> (int (length ?r) = MaxChildren cfg \<longrightarrow> ParamString cfg \<in> set (map fst ?r))"
  proof (intro impI conjI)
    from ok ne' have kb: "int (length kids) \<le> MaxChildren cfg" by (simp add: kids_ok_def)
    with len show "int (length ?r) \<le> MaxChildren cfg" by simp
    assume "int (length ?r) = MaxChildren cfg"
    with len kb have "int (length kids) = MaxChildren cfg" by simp
    with ok ne' have "ParamString cfg \<in> set (map fst kids)" by (simp add: kids_ok_def)
    with par keys show "ParamString cfg \<in> set (map fst ?r)" by auto
  qed
  have m: "map_of ?r p = Some ch"
    using ne by (simp add: AList.delete_conv AList.update_conv)
  from d b c m show ?thesis unfolding kids_ok_def by blast
qed

lemma addSeq_step_fanout:
  assumes ok: "kids_ok cfg kids"
    and np: "Preprocess E (ParamString cfg) = ParamString cfg"
    and st: "addSeq_step E cfg cid token i kids cache = Inr (key, child, kids', cache')"
  shows "kids_ok cfg kids' \<and> map_of kids' key = Some child"
proof (cases "map_of kids token")
  case (Some ch)
  with st ok show ?thesis by (simp add: addSeq_step_def)
next
  case None
  define p where "p = Preprocess E token"
  define ms where "ms = filter (\<lambda>key. Preprocess E key = p) (map fst kids)"
  define mk where "mk = (if ms = [] then [] else chosen E ms)"
  define cache1 where "cache1 = (if ms = [] then cache else modify cache cid (set_token i p))"
  note unf = addSeq_step_def Let_def p_def[symmetric] ms_def[symmetric] mk_def[symmetric] cache1_def[symmetric]
  show ?thesis
  proof (cases "mk = []")
    case True
    show ?thesis
    proof (cases "map_of kids (ParamString cfg)")
      case (Some pnode)
      then have pm: "ParamString cfg \<in> set (map fst kids)"
        by (metis domI dom_map_of_conv_image_fst set_map)
      show ?thesis
      proof (cases "int (length kids) < MaxChildren cfg")
        case lt: True
        with st None True Some have r: "key = token" "child = createNode"
          "kids' = AList.update token createNode kids"
          unfolding unf by auto
        have "kids_ok cfg (AList.update token createNode kids)"
          using lt pm by (intro kids_ok_add[OF ok None]) auto
        with r show ?thesis by (simp add: AList.update_conv)
      next
        case False
        with st None True Some have "key = ParamString cfg" "child = pnode" "kids' = kids"
          unfolding unf by auto
        with ok Some show ?thesis by simp
      qed
    next
      case pn: None
      from st None True pn consider
          "int (length kids) + 1 < MaxChildren cfg" "key = token" "child = createNode"
          "kids' = AList.update token createNode kids"
        | "int (length kids) + 1 = MaxChildren cfg" "key = ParamString cfg" "child = createNode"
          "kids' = AList.update (ParamString cfg) createNode kids"
        unfolding unf by (auto split: if_splits)
      then show ?thesis
      proof cases
        case 1
        have "kids_ok cfg (AList.update token createNode kids)"
          using 1(1) by (intro kids_ok_add[OF ok None]) auto
        with 1 show ?thesis by (simp add: AList.update_conv)
      next
        case 2
        have "kids_ok cfg (AList.update (ParamString cfg) createNode kids)"
          using 2(1) by (intro kids_ok_add[OF ok pn]) auto
        with 2 show ?thesis by (simp add: AList.update_conv)
      qed
    qed
  next
    case False
    then have msne: "ms \<noteq> []" by (auto simp: mk_def split: if_splits)
    then have "mk \<in> set ms" using chosen_mem[OF msne, of E] by (simp add: mk_def)
    then have nm: "Preprocess E mk = p" by (simp add: ms_def)
    from st None False obtain ch where ch: "map_of kids mk = Some ch" "child = ch" "key = p"
      and r: "(mk = p \<and> kids' = kids)
        \<or> (mk \<noteq> p \<and> kids' = AList.delete mk (AList.update p ch kids))"
      unfolding unf by (auto split: option.splits if_splits sum.splits)
    from r show ?thesis
    proof
      assume "mk = p \<and> kids' = kids"
      with ok ch show ?thesis by simp
    next
      assume a: "mk \<noteq> p \<and> kids' = AList.delete mk (AList.update p ch kids)"
      have "mk \<noteq> ParamString cfg"
      proof
        assume "mk = ParamString cfg"
        with nm np a show False by simp
      qed
      from kids_ok_rename[OF ok ch(1) _ this, of p] a ch show ?thesis by simp
    qed
  qed
qed

lemma kids_ok_replace:
  assumes ok: "kids_ok cfg kids" and m: "map_of kids key = Some child" and c: "fanout_ok cfg child'"
  shows "kids_ok cfg (AList.update key child' kids)"
proof -
  from m have mem: "key \<in> set (map fst kids)" by (metis domI dom_map_of_conv_image_fst set_map)
  then have keys: "map fst (AList.update key child' kids) = map fst kids"
    by (simp add: AList.update_keys)
  then have len: "length (AList.update key child' kids) = length kids"
    by (metis length_map)
  have ne: "AList.update key child' kids \<noteq> []" by simp
  have ne': "kids \<noteq> []" using m by auto
  have ch: "\<forall>e \<in> set (AList.update key child' kids). fanout_ok cfg (snd e)"
  proof
    fix e assume "e \<in> set (AList.update key child' kids)"
    with set_update_subset have "e = (key, child') \<or> e \<in> set kids" by fastforce
    with ok c show "fanout_ok cfg (snd e)" by (auto simp: kids_ok_def)
  qed
  from ok ne' ch show ?thesis unfolding kids_ok_def keys len by simp
qed

lemma addSeq_loop_fanout:
  assumes "Preprocess E (ParamString cfg) = ParamString cfg"
  shows "fanout_ok cfg node \<Longrightarrow>
     addSeq_loop E cfg cid tc tokens i depth node cache = Inr (node', cache') \<Longrightarrow> fanout_ok cfg node'"
proof (induction tokens arbitrary: i depth node cache node' cache')
  case Nil
  then show ?case by simp
next
  case (Cons token rest)
  show ?case
  proof (cases "maxNodeDepth cfg \<le> depth \<or> tc \<le> depth")
    case True
    with Cons.prems(2) obtain keep where "node' = Node (keyToChildNode node) keep"
      by (auto split: prod.splits)
    with Cons.prems(1) show ?thesis by (simp add: fanout_ok_kids)
  next
    case False
    with Cons.prems(2) obtain key child kids' cache1 child' where
      st: "addSeq_step E cfg cid token i (keyToChildNode node) cache = Inr (key, child, kids', cache1)"
      and rc: "addSeq_loop E cfg cid tc rest (i + 1) (depth + 1) child cache1 = Inr (child', cache')"
      and n': "node' = Node (AList.update key child' kids') (clusterIDs node)"
      by (auto split: sum.splits prod.splits)
    from Cons.prems(1) have ok: "kids_ok cfg (keyToChildNode node)" by (simp add: fanout_ok_kids)
    from addSeq_step_fanout[OF ok assms st] have k': "kids_ok cfg kids'" "map_of kids' key = Some child"
      by simp_all
    from k' have "fanout_ok cfg child"
      using map_of_SomeD[OF k'(2)] by (auto simp: kids_ok_def)
    from Cons.IH[OF this rc] have "fanout_ok cfg child'" .
    from kids_ok_replace[OF k' this] n' show ?thesis by (simp add: fanout_ok_kids)
  qed
qed

lemma addSeqToPrefixTree_fanout:
  assumes np: "Preprocess E (ParamString cfg) = ParamString cfg"
    and ok: "\<forall>kb \<in> set (keyToChildNode rootN). fanout_ok cfg (snd kb)"
    and a: "addSeqToPrefixTree E cfg cache rootN cid tokens = Inr (rootN', cache')"
  shows "\<forall>kb \<in> set (keyToChildNode rootN'). fanout_ok cfg (snd kb)"
proof -
  let ?key = "Itoa (length tokens)"
  define b0 where "b0 = (case map_of (keyToChildNode rootN) ?key of Some n \<Rightarrow> n | None \<Rightarrow> createNode)"
  have b0: "fanout_ok cfg b0"
  proof (cases "map_of (keyToChildNode rootN) ?key")
    case None
    then show ?thesis by (simp add: b0_def createNode_ok)
  next
    case (Some n)
    with ok map_of_SomeD[OF Some] show ?thesis by (auto simp: b0_def)
  qed
  have "\<exists>b'. rootN' = Node (AList.update ?key b' (keyToChildNode rootN)) (clusterIDs rootN)
      \<and> fanout_ok cfg b'"
  proof (cases "length tokens = 0")
    case True
    with a have "rootN' = Node (AList.update ?key (Node (keyToChildNode b0) (clusterIDs b0 @ [cid]))
        (keyToChildNode rootN)) (clusterIDs rootN)"
      by (simp add: addSeqToPrefixTree_def b0_def Let_def)
    moreover have "fanout_ok cfg (Node (keyToChildNode b0) (clusterIDs b0 @ [cid]))"
      using b0 by (simp add: fanout_ok_kids)
    ultimately show ?thesis by blast
  next
    case False
    with a obtain n' where
      l: "addSeq_loop E cfg cid (int (length tokens)) tokens 0 1 b0 cache = Inr (n', cache')"
      and r: "rootN' = Node (AList.update ?key n' (keyToChildNode rootN)) (clusterIDs rootN)"
      by (auto simp: addSeqToPrefixTree_def b0_def Let_def split: sum.splits)
    from addSeq_loop_fanout[OF np b0 l] r show ?thesis by blast
  qed
  then obtain b' where r: "rootN' = Node (AList.update ?key b' (keyToChildNode rootN)) (clusterIDs rootN)"
    and b': "fanout_ok cfg b'" by blast
  show ?thesis
  proof
    fix kb assume "kb \<in> set (keyToChildNode rootN')"
    with r set_update_subset have "kb = (?key, b') \<or> kb \<in> set (keyToChildNode rootN)" by fastforce
    with ok b' show "fanout_ok cfg (snd kb)" by auto
  qed
qed

lemma learn_fanout:
  assumes "fanout_inv E cfg d" "learn E d tokens size0 touch = Inr (d', c)"
  shows "fanout_inv E cfg d'"
proof -
  from assms(2) consider "rootNode d' = rootNode d" "config d' = config d"
    | tokens' cache2 cache3 cid where
        "addSeqToPrefixTree E (config d) cache2 (rootNode d) cid tokens' = Inr (rootNode d', cache3)"
        "config d' = config d"
    by (auto simp: learn_def Let_def split: sum.splits option.splits prod.splits)
  then show ?thesis
  proof cases
    case 1
    with assms(1) show ?thesis by (simp add: fanout_inv_def)
  next
    case 2
    from assms(1) have np: "Preprocess E (ParamString (config d)) = ParamString (config d)"
      and ok: "\<forall>kb \<in> set (keyToChildNode (rootNode d)). fanout_ok (config d) (snd kb)"
      by (auto simp: fanout_inv_def list_all_iff)
    from addSeqToPrefixTree_fanout[OF np ok 2(1)] assms(1) 2(2) show ?thesis
      by (simp add: fanout_inv_def list_all_iff)
  qed
qed

lemma MatchTokens_tree:
  assumes "MatchTokens E d tokens = Inr (d', tokens', r)"
  shows "rootNode d' = rootNode d \<and> config d' = config d"
  using assms by (auto simp: MatchTokens_def split: sum.splits)

lemma step_fanout:
  assumes "fanout_inv E cfg d" "step E d op = Inr d'"
  shows "fanout_inv E cfg d'"
proof (cases op)
  case (OpTrain content)
  with assms(2) obtain c where "learn E d (map (clip (config d)) (Marshal E content)) 1 append_sample = Inr (d', c)"
    by (cases "Train E d content") (auto simp: Train_def train_def)
  from learn_fanout[OF assms(1) this] show ?thesis .
next
  case (OpTrainTokens tokens)
  with assms(2) obtain c where "learn E d (map (clip (config d)) tokens) 1 append_sample = Inr (d', c)"
    by (cases "TrainTokens E d tokens") (auto simp: TrainTokens_def train_def)
  from learn_fanout[OF assms(1) this] show ?thesis .
next
  case (OpTrainPattern content)
  with assms(2) obtain c where
    "learn E d (tokenizePattern content (ParamString (config d))) 0 (\<lambda>c. c) = Inr (d', c)"
    by (cases "TrainPattern E d content") (auto simp: TrainPattern_def)
  from learn_fanout[OF assms(1) this] show ?thesis .
next
  case (OpMatch content)
  with assms(2) obtain t r where "MatchTokens E d (getContentAsTokens (config d) content) = Inr (d', t, r)"
    by (cases "Match E d content") (auto simp: Match_def)
  from MatchTokens_tree[OF this] assms(1) show ?thesis by (simp add: fanout_inv_def)
next
  case (OpMatchTokens tokens)
  with assms(2) obtain t r where "MatchTokens E d tokens = Inr (d', t, r)"
    by (cases "MatchTokens E d tokens") auto
  from MatchTokens_tree[OF this] assms(1) show ?thesis by (simp add: fanout_inv_def)
next
  case (OpDelete cid)
  with assms show ?thesis by (auto simp: fanout_inv_def Delete_def)
next
  case (OpPatternString cid)
  with assms show ?thesis by (auto simp: fanout_inv_def PatternString_of_def)
qed

lemma run_fanout: "fanout_inv E cfg d \<Longrightarrow> run E d ops = Inr d' \<Longrightarrow> fanout_inv E cfg d'"
proof (induction ops arbitrary: d)
  case Nil
  then show ?case by simp
next
  case (Cons op ops)
  from Cons.prems(2) obtain d1 where s: "step E d op = Inr d1" and r: "run E d1 ops = Inr d'"
    by (auto split: sum.splits)
  from Cons.IH[OF step_fanout[OF Cons.prems(1) s] r] show ?case .
qed

lemma rename_edges:
  assumes dk: "distinct (map fst kids)" and mk: "map_of kids mk = Some ch"
  shows "length (AList.delete mk (AList.update p ch kids)) \<le> length kids
    \<and> set (map fst (AList.delete mk (AList.update p ch kids))) \<subseteq> insert p (set (map fst kids))"
proof -
  let ?r = "AList.delete mk (AList.update p ch kids)"
  have d: "distinct (map fst ?r)"
    using dk by (intro AList.distinct_delete AList.distinct_update)
  from mk have mem: "mk \<in> set (map fst kids)" by (metis domI dom_map_of_conv_image_fst set_map)
  have keys: "set (map fst ?r) = insert p (set (map fst kids)) - {mk}"
    by (simp add: AList.delete_keys AList.dom_update)
  have "length (map fst ?r) = card (set (map fst ?r))"
    using distinct_card[OF d] by simp
  also have "\<dots> = card (insert p (set (map fst kids)) - {mk})" using keys by simp
  also have "\<dots> \<le> card (set (map fst kids))"
    using mem by (simp add: card_insert_if card_Diff_singleton_if)
  also have "\<dots> = length kids" using dk by (metis distinct_card length_map)
  finally have "length ?r \<le> length kids" by simp
  with keys show ?thesis by auto
qed

lemma full_node_step:
  assumes ok: "kids_ok cfg kids" and full: "int (length kids) = MaxChildren cfg"
    and st: "addSeq_step E cfg cid token i kids cache = Inr (key, child, kids', cache')"
  shows "length kids' \<le> length kids
    \<and> set (map fst kids') \<subseteq> insert (Preprocess E token) (set (map fst kids))"
proof (cases "map_of kids token")
  case (Some ch)
  with st show ?thesis by (auto simp: addSeq_step_def)
next
  case None
  define p where "p = Preprocess E token"
  define ms where "ms = filter (\<lambda>key. Preprocess E key = p) (map fst kids)"
  define mk where "mk = (if ms = [] then [] else chosen E ms)"
  define cache1 where "cache1 = (if ms = [] then cache else modify cache cid (set_token i p))"
  note unf = addSeq_step_def Let_def p_def[symmetric] ms_def[symmetric] mk_def[symmetric] cache1_def[symmetric]
  show ?thesis
  proof (cases "mk = []")
    case True
    from st None True full have "kids' = kids"
      unfolding unf by (auto split: option.splits if_splits)
    then show ?thesis by auto
  next
    case False
    from st None False obtain ch where ch: "map_of kids mk = Some ch"
      and r: "kids' = kids \<or> kids' = AList.delete mk (AList.update p ch kids)"
      unfolding unf by (auto split: option.splits if_splits sum.splits)
    from ok have dk: "distinct (map fst kids)" by (simp add: kids_ok_def)
    from r rename_edges[OF dk ch, of p] show ?thesis by (auto simp: p_def)
  qed
qed

text \<open>
  Claim C5, as amended. After any sequence of public operations on a fresh engine, every node at or
  below the length-bucket level that has an outgoing edge has at most \<open>max_children\<close> of
  them, and a node with exactly \<open>max_children\<close> edges has the placeholder edge
  (\<open>fanout_ok\<close> for every bucket). At a node with exactly \<open>max_children\<close> edges an
  insertion step adds no edge: the number of edges does not grow, and the only key that
  can appear is the normalised token when it renames an existing edge. This holds for a
  normaliser that leaves the placeholder token as it is.
\<close>

theorem bounded_fanout:
  assumes "run_new E cfg ops = Inr d" and "Preprocess E (ParamString cfg) = ParamString cfg"
  shows "MaxChildren (config d) = MaxChildren cfg \<and> ParamString (config d) = ParamString cfg
    \<and> list_all (\<lambda>kb. fanout_ok (config d) (snd kb)) (keyToChildNode (rootNode d))
    \<and> (kids_ok (config d) kids \<longrightarrow> int (length kids) = MaxChildren (config d) \<longrightarrow>
          addSeq_step E (config d) cid token i kids cache = Inr (key, child, kids', cache') \<longrightarrow>
          length kids' \<le> length kids
          \<and> set (map fst kids') \<subseteq> insert (Preprocess E token) (set (map fst kids)))"
proof -
  from assms(1) obtain d0 where n: "New cfg = Inr d0" and r: "run E d0 ops = Inr d"
    by (auto simp: run_new_def split: sum.splits)
  from n assms(2) have "fanout_inv E cfg d0"
    by (auto simp: New_def fanout_inv_def createNode_def split: if_splits)
  from run_fanout[OF this r] full_node_step[of "config d" kids E cid token i cache key child kids' cache']
  show ?thesis by (simp add: fanout_inv_def)
qed

theorem bounded_fanout_witness:
  "Preprocess plain_env (ParamString DefaultConfig) = ParamString DefaultConfig
   \<and> edges_of (run_new plain_env DefaultConfig (map OpTrain fan_lines)) [''3'', ''a'']
       = Some [''v1'', ''v2'', ''v3'', ''v4'', ''v5'', ''v6'', ''v7'', ''<_>'']
   \<and> run_new plain_env DefaultConfig (map OpTrain fan_lines) = Inr fan_engine
   \<and> list_all (\<lambda>kb. fanout_ok (config fan_engine) (snd kb)) (keyToChildNode (rootNode fan_engine))"
proof -
  have p: "Preprocess plain_env (ParamString DefaultConfig) = ParamString DefaultConfig"
    by (simp add: plain_env_def)
  have r: "run_new plain_env DefaultConfig (map OpTrain fan_lines) = Inr fan_engine"
    by code_simp
  have e: "edges_of (run_new plain_env DefaultConfig (map OpTrain fan_lines)) [''3'', ''a'']
       = Some [''v1'', ''v2'', ''v3'', ''v4'', ''v5'', ''v6'', ''v7'', ''<_>'']"
    by code_simp
  from bounded_fanout[OF r p] p r e show ?thesis by blast
qed

text \<open>
  Claim C5 as stated fails for a normaliser that rewrites the placeholder token. With
  \<open>max_children = 2\<close>, the placeholder \<open>0\<close> and a normaliser that maps digit strings to
  \<open><NUM>\<close>, the second line gives node \<open>a\<close> the edges \<open>v1\<close> and \<open>0\<close>; the third line renames
  the placeholder edge to \<open><NUM>\<close>, so the node has \<open>max_children\<close> edges and none of them is
  the placeholder; the fourth line then follows the missing placeholder edge.
\<close>

theorem renamed_placeholder_edge_counterexample:
  "edges_of (run_new digit_env zero_cfg (map OpTrain [''a v1 x'', ''a v2 y''])) [''3'', ''a'']
       = Some [''v1'', ''0'']
   \<and> edges_of (run_new digit_env zero_cfg (map OpTrain [''a v1 x'', ''a v2 y'', ''a 7 z''])) [''3'', ''a'']
       = Some [''v1'', ''<NUM>'']
   \<and> MaxChildren zero_cfg = 2 \<and> ParamString zero_cfg = ''0''
   \<and> run_new digit_env zero_cfg (map OpTrain [''a v1 x'', ''a v2 y'', ''a 7 z'', ''a w q''])
       = Inl NilPointer"
  by code_simp

lemma fan_eval:
  "edges_of (run_new plain_env DefaultConfig (map OpTrain (take 7 fan_lines))) [''3'', ''a'']
     = Some [''v1'', ''v2'', ''v3'', ''v4'', ''v5'', ''v6'', ''v7'']
   \<and> edges_of (run_new plain_env DefaultConfig (map OpTrain (take 8 fan_lines))) [''3'', ''a'']
     = Some [''v1'', ''v2'', ''v3'', ''v4'', ''v5'', ''v6'', ''v7'', ''<_>'']
   \<and> edges_of (run_new plain_env DefaultConfig (map OpTrain fan_lines)) [''3'', ''a'']
     = Some [''v1'', ''v2'', ''v3'', ''v4'', ''v5'', ''v6'', ''v7'', ''<_>'']
   \<and> template_of (run_new plain_env DefaultConfig (map OpTrain fan_lines)) 8 = Some [''a'', ''<_>'', ''x'']"
  by code_simp

section \<open>Training the same line again\<close>























section \<open>The same line again on a reachable engine\<close>





















































lemma same_fit: "\<forall>e \<in> set (zip T T). fst e = snd e \<or> fst e = p"
  by (auto simp: set_zip)













end
